theory Spec2Isabelle
  imports Complex_Main
begin

section \<open>Strings\<close>

text \<open>
  A Python \<open>str\<close> is a sequence of Unicode code points; it is modelled as a list of
  natural numbers, one per code point.  ASCII literals of the source are written with
  \<open>pystr\<close>, all other literals by their code points.
\<close>

type_synonym ustr = "nat list"

definition pystr :: "string \<Rightarrow> ustr" where
  "pystr s = map of_char s"

text \<open>
  \<open>str.isspace\<close> of one character, which is also the class \<open>\s\<close> of \<open>re\<close> on a
  \<open>str\<close> pattern: the code points that \<open>str.strip()\<close> removes.
\<close>

definition is_space :: "nat \<Rightarrow> bool" where
  "is_space c =
     ((9 \<le> c \<and> c \<le> 13) \<or> (28 \<le> c \<and> c \<le> 32) \<or> c = 133 \<or> c = 160 \<or> c = 5760
      \<or> (8192 \<le> c \<and> c \<le> 8202) \<or> c = 8232 \<or> c = 8233 \<or> c = 8239 \<or> c = 8287
      \<or> c = 12288)"

text \<open>\<open>s.strip(chars)\<close> for a predicate on characters, and \<open>s.strip()\<close>.\<close>

definition strip_chars :: "(nat \<Rightarrow> bool) \<Rightarrow> ustr \<Rightarrow> ustr" where
  "strip_chars P s = rev (dropWhile P (rev (dropWhile P s)))"

definition strip :: "ustr \<Rightarrow> ustr" where
  "strip s = strip_chars is_space s"

text \<open>
  \<open>str.lower()\<close>.  The table is complete for the code points whose lower case
  contains an ASCII letter (the ASCII capitals, KELVIN SIGN U+212A, and U+0130, whose
  lower case is \<open>i\<close> followed by U+0307); every other code point is left as it is.
  This is exact on every string that a pattern of ASCII terms can match, and it decides
  exactly whether the lower case of a string is a given ASCII string.
\<close>

definition lower_char :: "nat \<Rightarrow> ustr" where
  "lower_char c =
     (if 65 \<le> c \<and> c \<le> 90 then [c + 32]
      else if c = 8490 then [107]
      else if c = 304 then [105, 775]
      else [c])"

definition py_lower :: "ustr \<Rightarrow> ustr" where
  "py_lower s = concat (map lower_char s)"

text \<open>\<open>sep.join(xs)\<close> and \<open>str(n)\<close> for a natural number.\<close>

fun join :: "ustr \<Rightarrow> ustr list \<Rightarrow> ustr" where
  "join sep [] = []"
| "join sep [x] = x"
| "join sep (x # y # ys) = x @ sep @ join sep (y # ys)"

function str_of_nat :: "nat \<Rightarrow> ustr" where
  "str_of_nat n = (if n < 10 then [48 + n] else str_of_nat (n div 10) @ [48 + n mod 10])"
  by pat_completeness auto
termination
  by (relation "measure id") auto

declare str_of_nat.simps [simp del]

text \<open>\<open>list(dict.fromkeys(xs))\<close>: the first occurrence of every element, in order.\<close>

fun fromkeys :: "'a list \<Rightarrow> 'a list" where
  "fromkeys [] = []"
| "fromkeys (x # xs) = x # fromkeys (filter (\<lambda>y. y \<noteq> x) xs)"

section \<open>The plugin object and the event\<close>

text \<open>
  The attributes of \<open>ComfyUIPlugin\<close> used by the admission checks.  \<open>lexicon\<close> is the
  dictionary loaded from \<open>sensitive_words.json\<close> (category to list of terms);
  \<open>user_cooldowns\<close> is the dictionary from user id to the time of the last accepted
  action.  Time stamps (\<open>time.time()\<close>) and the configured duration are modelled as
  real numbers; the rounding of floating-point subtraction is not modelled.
\<close>

record plugin =
  cooldown_seconds :: real
  user_cooldowns :: "ustr \<rightharpoonup> real"
  admin_user_ids :: "ustr set"
  admin_bypass_cooldown :: bool
  admin_bypass_sensitive :: bool
  default_group_policy :: ustr
  default_private_policy :: ustr
  group_policies :: "ustr \<rightharpoonup> ustr"
  lexicon :: "ustr \<rightharpoonup> ustr list"
  multi_image_mode :: bool

text \<open>
  What the checks read from an event: whether \<open>_is_group_message\<close> holds, the value
  of \<open>_get_group_id\<close> (\<open>None\<close> when no group id can be read) and
  \<open>str(event.get_sender_id())\<close>.
\<close>

record event =
  is_group_message :: bool
  group_id :: "ustr option"
  sender_id :: ustr

section \<open>Policy tiers and the policy compiler\<close>

text \<open>
  \<open>self.policies\<close>: the categories of each tier.  The values are Python sets, whose
  iteration order is not fixed; they are listed here in the order of the source, and the
  compiler below takes the list of categories as an argument, so that its properties are
  proved for every order.
\<close>

definition lite_categories :: "ustr list" where
  "lite_categories = [pystr ''legacy_lite'']"

definition full_categories :: "ustr list" where
  "full_categories =
     [pystr ''legacy_lite'', pystr ''minors'', pystr ''sexual_violence'',
      pystr ''bestiality_incest_necrophilia'', pystr ''violence_gore'',
      pystr ''scat_urine_vomit'', pystr ''self_harm'', pystr ''sexual'', pystr ''nudity'',
      pystr ''fetish'']"

definition policies :: "ustr \<rightharpoonup> ustr list" where
  "policies =
     [pystr ''none'' \<mapsto> [], pystr ''lite'' \<mapsto> lite_categories,
      pystr ''full'' \<mapsto> full_categories]"

text \<open>\<open>_is_ascii_term\<close>\<close>

definition is_ascii_term :: "ustr \<Rightarrow> bool" where
  "is_ascii_term s = list_all (\<lambda>ch. ch < 128) s"

text \<open>\<open>self.lexicon.get(cat, [])\<close>\<close>

definition lexicon_get :: "(ustr \<rightharpoonup> ustr list) \<Rightarrow> ustr \<Rightarrow> ustr list" where
  "lexicon_get lx cat = (case lx cat of None \<Rightarrow> [] | Some ts \<Rightarrow> ts)"

text \<open>
  The two loops of \<open>_build_policy_patterns\<close> over the categories and their terms: the
  terms that are kept (not empty, ASCII only), in the order they are visited.
\<close>

definition kept_terms :: "(ustr \<rightharpoonup> ustr list) \<Rightarrow> ustr list \<Rightarrow> ustr list" where
  "kept_terms lx cats =
     filter (\<lambda>t. t \<noteq> [] \<and> is_ascii_term t) (concat (map (lexicon_get lx) cats))"

text \<open>\<open>" " in t\<close>\<close>

definition has_space :: "ustr \<Rightarrow> bool" where
  "has_space t = (32 \<in> set t)"

text \<open>
  A compiled pattern.  Every term is passed through \<open>re.escape\<close>, so it stands in the
  regular expression as a literal; \<open>re.escape\<close> is injective, so removing duplicates
  among the escaped terms removes the duplicates among the terms.  The pattern is
  \<open>(?<![A-Za-z0-9_])(?:w1|...|wn)(?![A-Za-z0-9_])|p1|...|pm\<close>, compiled with
  \<open>re.IGNORECASE\<close>, where the first branch is absent when there is no word term and
  the others when there is no phrase term.
\<close>

record pattern =
  word_terms :: "ustr list"
  phrase_terms :: "ustr list"

text \<open>The body of the loop over the tiers: \<open>None\<close> when \<open>parts\<close> is empty.\<close>

definition build_pattern :: "(ustr \<rightharpoonup> ustr list) \<Rightarrow> ustr list \<Rightarrow> pattern option" where
  "build_pattern lx cats =
     (let wts = fromkeys (filter (\<lambda>t. \<not> has_space t) (kept_terms lx cats));
          pts = fromkeys (filter has_space (kept_terms lx cats))
      in if wts = [] \<and> pts = [] then None
         else Some \<lparr>word_terms = wts, phrase_terms = pts\<rparr>)"

text \<open>
  \<open>self._policy_patterns\<close> after \<open>_build_policy_patterns\<close>: a dictionary from tier
  name to a compiled pattern or \<open>None\<close>.
\<close>

definition policy_patterns :: "(ustr \<rightharpoonup> ustr list) \<Rightarrow> ustr \<rightharpoonup> pattern option" where
  "policy_patterns lx = (\<lambda>policy. map_option (build_pattern lx) (policies policy))"

section \<open>Matching\<close>

text \<open>
  One literal character \<open>c\<close> of an ASCII term against one character \<open>d\<close> of the text
  under \<open>re.IGNORECASE\<close> on \<open>str\<close>: a letter matches its two ASCII cases and the
  code points whose simple lower case is the letter (U+0130 for \<open>i\<close>, U+212A for
  \<open>k\<close>) or that share its upper case (U+0131 with \<open>i\<close>, U+017F with \<open>s\<close>); any
  other character matches itself only.
\<close>

definition ascii_lower :: "nat \<Rightarrow> nat" where
  "ascii_lower c = (if 65 \<le> c \<and> c \<le> 90 then c + 32 else c)"

definition is_ascii_letter :: "nat \<Rightarrow> bool" where
  "is_ascii_letter c = ((65 \<le> c \<and> c \<le> 90) \<or> (97 \<le> c \<and> c \<le> 122))"

definition ci_literal :: "nat \<Rightarrow> nat \<Rightarrow> bool" where
  "ci_literal c d =
     (if is_ascii_letter c
      then (is_ascii_letter d \<and> ascii_lower d = ascii_lower c)
           \<or> (ascii_lower c = 105 \<and> (d = 304 \<or> d = 305))
           \<or> (ascii_lower c = 115 \<and> d = 383)
           \<or> (ascii_lower c = 107 \<and> d = 8490)
      else d = c)"

text \<open>
  The class \<open>[A-Za-z0-9_]\<close> under \<open>re.IGNORECASE\<close>: the ASCII letters, digits and
  underscore, and the four code points above that match an ASCII letter.
\<close>

definition is_word_char :: "nat \<Rightarrow> bool" where
  "is_word_char d =
     (is_ascii_letter d \<or> (48 \<le> d \<and> d \<le> 57) \<or> d = 95
      \<or> d = 304 \<or> d = 305 \<or> d = 383 \<or> d = 8490)"

text \<open>The literal term \<open>t\<close> matches at the beginning of \<open>s\<close>.\<close>

fun ci_prefix :: "ustr \<Rightarrow> ustr \<Rightarrow> bool" where
  "ci_prefix [] s = True"
| "ci_prefix (c # cs) [] = False"
| "ci_prefix (c # cs) (d # ds) = (ci_literal c d \<and> ci_prefix cs ds)"

text \<open>
  The look-behind at position \<open>pos\<close> and the look-ahead at position \<open>e\<close> of the whole
  text.
\<close>

definition lookbehind_ok :: "ustr \<Rightarrow> nat \<Rightarrow> bool" where
  "lookbehind_ok text pos = (if pos = 0 then True else \<not> is_word_char (text ! (pos - 1)))"

definition lookahead_ok :: "ustr \<Rightarrow> nat \<Rightarrow> bool" where
  "lookahead_ok text e = (if length text \<le> e then True else \<not> is_word_char (text ! e))"

text \<open>
  The alternation of the word terms followed by the look-ahead: the alternatives are
  tried in order, and the engine backtracks into the alternation when the look-ahead
  fails.  The result is the length of the match.
\<close>

fun first_word :: "ustr list \<Rightarrow> ustr \<Rightarrow> nat \<Rightarrow> nat option" where
  "first_word [] text pos = None"
| "first_word (t # ts) text pos =
     (if ci_prefix t (drop pos text) \<and> lookahead_ok text (pos + length t)
      then Some (length t) else first_word ts text pos)"

fun first_phrase :: "ustr list \<Rightarrow> ustr \<Rightarrow> nat \<Rightarrow> nat option" where
  "first_phrase [] text pos = None"
| "first_phrase (t # ts) text pos =
     (if ci_prefix t (drop pos text) then Some (length t) else first_phrase ts text pos)"

text \<open>The whole pattern tried at position \<open>pos\<close>: the word branch first, then the phrases.\<close>

definition match_at :: "pattern \<Rightarrow> ustr \<Rightarrow> nat \<Rightarrow> nat option" where
  "match_at pat text pos =
     (case (if lookbehind_ok text pos then first_word (word_terms pat) text pos else None) of
        Some n \<Rightarrow> Some n
      | None \<Rightarrow> first_phrase (phrase_terms pat) text pos)"

text \<open>
  \<open>pattern.finditer(text)\<close> from position \<open>pos\<close>: the matches as pairs of start
  position and length, leftmost first and not overlapping.  No term of a compiled pattern
  is empty, so no match is empty and nothing matches at the end of the text; \<open>max 1\<close>
  only makes the scan advance for every pattern.
\<close>

function finditer_from :: "pattern \<Rightarrow> ustr \<Rightarrow> nat \<Rightarrow> (nat \<times> nat) list" where
  "finditer_from pat text pos =
     (if length text \<le> pos then []
      else case match_at pat text pos of
             None \<Rightarrow> finditer_from pat text (Suc pos)
           | Some n \<Rightarrow> (pos, n) # finditer_from pat text (pos + max 1 n))"
  by pat_completeness auto
termination
  by (relation "measure (\<lambda>(pat, text, pos). length text - pos)") auto

declare finditer_from.simps [simp del]

text \<open>\<open>m.group(0)\<close> for the matches of \<open>finditer\<close>.\<close>

definition matched_strings :: "pattern \<Rightarrow> ustr \<Rightarrow> ustr list" where
  "matched_strings pat text =
     map (\<lambda>(pos, n). take n (drop pos text)) (finditer_from pat text 0)"

section \<open>The sensitive-word search and the content-policy check\<close>

text \<open>\<open>_get_policy_for_event\<close>\<close>

definition get_policy_for_event :: "plugin \<Rightarrow> event \<Rightarrow> ustr" where
  "get_policy_for_event st ev =
     (if is_group_message ev
      then (case group_id ev of
              None \<Rightarrow> default_group_policy st
            | Some gid \<Rightarrow>
                if gid = [] then default_group_policy st
                else (case group_policies st gid of
                        None \<Rightarrow> default_group_policy st
                      | Some p \<Rightarrow> p))
      else default_private_policy st)"

text \<open>
  The loop of \<open>_find_sensitive_words\<close> over the matches, with the set \<open>seen\<close> (kept as
  a list) and the list \<open>result\<close>.
\<close>

fun collect_loop :: "ustr list \<Rightarrow> ustr list \<Rightarrow> ustr list \<Rightarrow> ustr list" where
  "collect_loop [] seen result = result"
| "collect_loop (w # ws) seen result =
     (let key = py_lower w
      in if key \<notin> set seen then collect_loop ws (key # seen) (result @ [w])
         else collect_loop ws seen result)"

text \<open>\<open>_find_sensitive_words\<close> after the tier has been chosen.\<close>

definition find_with_policy :: "plugin \<Rightarrow> ustr \<Rightarrow> ustr \<Rightarrow> ustr list" where
  "find_with_policy st policy text =
     (if policy = pystr ''none'' then []
      else case policy_patterns (lexicon st) (py_lower policy) of
             Some (Some ascii_pat) \<Rightarrow> collect_loop (matched_strings ascii_pat text) [] []
           | _ \<Rightarrow> [])"

text \<open>\<open>_find_sensitive_words\<close>; the event is optional.\<close>

definition find_sensitive_words :: "plugin \<Rightarrow> ustr \<Rightarrow> event option \<Rightarrow> ustr list" where
  "find_sensitive_words st text ev =
     (if text = [] then []
      else find_with_policy st
             (case ev of None \<Rightarrow> pystr ''full'' | Some e \<Rightarrow> get_policy_for_event st e) text)"

text \<open>\<open>_check_sensitive\<close>\<close>

definition check_sensitive :: "plugin \<Rightarrow> ustr \<Rightarrow> event \<Rightarrow> bool \<times> ustr list" where
  "check_sensitive st prompt ev =
     (let is_admin = (sender_id ev \<in> admin_user_ids st);
          sensitive = find_sensitive_words st prompt (Some ev)
      in if sensitive = [] then (True, [])
         else if is_admin \<and> admin_bypass_sensitive st then (True, [])
         else (False, sensitive))"

text \<open>
  The tier settings as \<open>__init__\<close> reads them from the configuration
  (\<open>str(...).lower()\<close> on every tier name), applied to a plugin object.
\<close>

definition load_policies :: "ustr \<Rightarrow> ustr \<Rightarrow> (ustr \<rightharpoonup> ustr) \<Rightarrow> plugin \<Rightarrow> plugin" where
  "load_policies conf_group conf_private conf_groups st =
     st\<lparr>default_group_policy := py_lower conf_group,
        default_private_policy := py_lower conf_private,
        group_policies := (\<lambda>k. map_option py_lower (conf_groups k))\<rparr>"

section \<open>The rejection messages\<close>

text \<open>
  The message sent when \<open>_check_sensitive\<close> fails, on each of the three call paths:
  \<open>_handle_paint_logic\<close>, \<open>comfyui_txt2img\<close> and the batch loop of
  \<open>_auto_paint_from_llm\<close>.  The literal parts are given by their code points.
\<close>

definition msg_head :: ustr where
  "msg_head = [128683, 32, 26816, 27979, 21040, 25935, 24863, 35789, 65306]"

definition term_sep :: ustr where
  "term_sep = [12289]"

definition paint_rejection :: "ustr list \<Rightarrow> ustr" where
  "paint_rejection sensitive =
     (let tip = join term_sep (take 5 sensitive);
          extra = (if length sensitive > 5
                   then [31561, 32] @ str_of_nat (length sensitive) @ [32, 20010] else [])
      in msg_head @ tip @ extra @ [65292, 26080, 27861, 29983, 25104, 22270, 29255])"

definition txt2img_rejection :: "ustr list \<Rightarrow> ustr" where
  "txt2img_rejection sensitive =
     (let tip = join term_sep (take 5 sensitive)
      in msg_head @ tip @ [65292, 26080, 27861, 29983, 25104])"

definition batch_rejection :: "ustr \<Rightarrow> nat \<Rightarrow> ustr list \<Rightarrow> ustr" where
  "batch_rejection text_content img_idx sensitive =
     (let tip = join term_sep (take 3 sensitive)
      in text_content @ [10, 128683, 32, 91, 22270, 29255] @ str_of_nat img_idx
         @ [93, 32, 26816, 27979, 21040, 25935, 24863, 35789, 65306] @ tip)"

text \<open>
  The content-policy step of each path: the message sent when the check fails, \<open>None\<close>
  when the path goes on.
\<close>

definition paint_policy_step :: "plugin \<Rightarrow> ustr \<Rightarrow> event \<Rightarrow> ustr option" where
  "paint_policy_step st prompt ev =
     (case check_sensitive st prompt ev of
        (passed, sensitive) \<Rightarrow> if \<not> passed then Some (paint_rejection sensitive) else None)"

definition txt2img_policy_step :: "plugin \<Rightarrow> ustr \<Rightarrow> event \<Rightarrow> ustr option" where
  "txt2img_policy_step st prompt ev =
     (case check_sensitive st prompt ev of
        (passed, sensitive) \<Rightarrow> if \<not> passed then Some (txt2img_rejection sensitive) else None)"

definition batch_policy_step :: "plugin \<Rightarrow> ustr \<Rightarrow> nat \<Rightarrow> ustr \<Rightarrow> event \<Rightarrow> ustr option" where
  "batch_policy_step st text_content img_idx prompt_content ev =
     (case check_sensitive st prompt_content ev of
        (passed, sensitive) \<Rightarrow>
          if \<not> passed then Some (batch_rejection text_content img_idx sensitive) else None)"

section \<open>Cooldown\<close>

text \<open>Python's \<open>int(x)\<close> on a float: truncation towards zero.\<close>

definition py_int :: "real \<Rightarrow> int" where
  "py_int x = (if 0 \<le> x then \<lfloor>x\<rfloor> else \<lceil>x\<rceil>)"

text \<open>\<open>self.user_cooldowns.get(user_id, 0)\<close>\<close>

definition last_time :: "plugin \<Rightarrow> ustr \<Rightarrow> real" where
  "last_time st user_id = (case user_cooldowns st user_id of None \<Rightarrow> 0 | Some t \<Rightarrow> t)"

text \<open>
  \<open>_check_cooldown\<close>, with the sender id of the event and the value returned by
  \<open>time.time()\<close> as arguments.  The result is the returned pair
  \<open>(passed, remaining)\<close> together with the plugin object after the call.
\<close>

definition check_cooldown :: "plugin \<Rightarrow> ustr \<Rightarrow> real \<Rightarrow> (bool \<times> int) \<times> plugin" where
  "check_cooldown st user_id current_time =
     (let is_admin = (user_id \<in> admin_user_ids st) in
      if is_admin \<and> admin_bypass_cooldown st then ((True, 0), st)
      else
        let elapsed = current_time - last_time st user_id in
        if elapsed < cooldown_seconds st
        then ((False, py_int (cooldown_seconds st - elapsed)), st)
        else ((True, 0),
              st\<lparr>user_cooldowns := (user_cooldowns st)(user_id \<mapsto> current_time)\<rparr>))"

section \<open>The response segmenter\<close>

text \<open>The delimiters \<open><U+63D0 U+793A U+8BCD></U+63D0 U+793A U+8BCD>\<close> and the label.\<close>

definition open_tag :: ustr where
  "open_tag = [60, 25552, 31034, 35789, 62]"

definition close_tag :: ustr where
  "close_tag = [60, 47, 25552, 31034, 35789, 62]"

definition label :: ustr where
  "label = [25552, 31034, 35789, 26159]"

text \<open>\<open>s.startswith(p)\<close> and \<open>s.find(needle)\<close> (\<open>None\<close> for \<open>-1\<close>).\<close>

fun starts_with :: "ustr \<Rightarrow> ustr \<Rightarrow> bool" where
  "starts_with [] s = True"
| "starts_with (p # ps) [] = False"
| "starts_with (p # ps) (c # cs) = (p = c \<and> starts_with ps cs)"

fun find_sub :: "ustr \<Rightarrow> ustr \<Rightarrow> nat option" where
  "find_sub needle [] = (if needle = [] then Some 0 else None)"
| "find_sub needle (c # cs) =
     (if starts_with needle (c # cs) then Some 0 else map_option Suc (find_sub needle cs))"

text \<open>
  The leftmost match of the opening tag, anything (as little as possible, line breaks
  included) and the closing tag: the text before the match, the text between the tags,
  and the text after the match.  The match starts at the first opening tag and ends with
  the first closing tag after it; when no closing tag follows the first opening tag, none
  follows a later one, and there is no match.
\<close>

definition next_tag :: "ustr \<Rightarrow> (ustr \<times> ustr \<times> ustr) option" where
  "next_tag text =
     (case find_sub open_tag text of
        None \<Rightarrow> None
      | Some i \<Rightarrow>
          (let after = drop (i + length open_tag) text
           in case find_sub close_tag after of
                None \<Rightarrow> None
              | Some j \<Rightarrow>
                  Some (take i text, take j after, drop (j + length close_tag) after)))"

lemma starts_with_length: "starts_with p s \<Longrightarrow> length p \<le> length s"
  by (induction p s rule: starts_with.induct) auto

lemma find_sub_bound: "find_sub needle hay = Some i \<Longrightarrow> i + length needle \<le> length hay"
proof (induction hay arbitrary: i)
  case Nil
  then show ?case by (simp split: if_splits)
next
  case (Cons c cs)
  show ?case
  proof (cases "starts_with needle (c # cs)")
    case True
    with Cons.prems starts_with_length [OF True] show ?thesis by simp
  next
    case False
    with Cons.prems obtain k where "find_sub needle cs = Some k" "i = Suc k" by auto
    with Cons.IH show ?thesis by simp
  qed
qed

lemma next_tag_shorter:
  assumes "next_tag text = Some (before, content, rest)"
  shows "length rest < length text"
proof -
  from assms obtain i j where
    i: "find_sub open_tag text = Some i" and
    j: "find_sub close_tag (drop (i + length open_tag) text) = Some j" and
    r: "rest = drop (j + length close_tag) (drop (i + length open_tag) text)"
    by (auto simp: next_tag_def Let_def split: option.splits)
  from find_sub_bound [OF i] have "length open_tag \<le> length text" by simp
  then have "0 < length text" by (auto simp: open_tag_def)
  with r show ?thesis by (simp add: open_tag_def close_tag_def)
qed

text \<open>
  \<open>re.findall\<close> with the group between the tags, and \<open>re.split\<close> on the tagged
  regions, both with \<open>re.DOTALL\<close>.
\<close>

function findall_prompts :: "ustr \<Rightarrow> ustr list" where
  "findall_prompts text =
     (case next_tag text of
        None \<Rightarrow> []
      | Some (before, content, rest) \<Rightarrow> content # findall_prompts rest)"
  by pat_completeness auto
termination
  by (relation "measure length") (auto simp: next_tag_shorter)

declare findall_prompts.simps [simp del]

function split_on_tags :: "ustr \<Rightarrow> ustr list" where
  "split_on_tags text =
     (case next_tag text of
        None \<Rightarrow> [text]
      | Some (before, content, rest) \<Rightarrow> before # split_on_tags rest)"
  by pat_completeness auto
termination
  by (relation "measure length") (auto simp: next_tag_shorter)

declare split_on_tags.simps [simp del]

text \<open>
  \<open>re.sub\<close> of the label at the beginning of a prompt, with the white space and the
  optional colon (ASCII or full width) after it.
\<close>

definition remove_label :: "ustr \<Rightarrow> ustr" where
  "remove_label p =
     (if starts_with label p
      then (let r = dropWhile is_space (drop (length label) p);
                r' = (case r of [] \<Rightarrow> [] | c # cs \<Rightarrow> if c = 58 \<or> c = 65306 then cs else r)
            in dropWhile is_space r')
      else p)"

text \<open>The characters of the second \<open>strip\<close>: back quote, double quote, single quote.\<close>

definition is_wrapper :: "nat \<Rightarrow> bool" where
  "is_wrapper c = (c = 96 \<or> c = 34 \<or> c = 39)"

definition clean_prompt :: "ustr \<Rightarrow> ustr" where
  "clean_prompt p = strip (strip_chars is_wrapper (strip (remove_label p)))"

definition clean_prompts :: "ustr list \<Rightarrow> ustr list" where
  "clean_prompts prompts = filter (\<lambda>p. p \<noteq> []) (map clean_prompt prompts)"

text \<open>
  A segment is the dictionary \<open>{"type": ..., "content": ...}\<close> with type \<open>"text"\<close> or
  \<open>"prompt"\<close>.
\<close>

datatype segment = Text ustr | Prompt ustr

text \<open>
  The loop over \<open>parts\<close>, with the cursor \<open>prompt_idx\<close> into the cleaned prompts and
  the list \<open>segments\<close> built so far.
\<close>

fun walk :: "ustr list \<Rightarrow> ustr list \<Rightarrow> nat \<Rightarrow> segment list \<Rightarrow> segment list" where
  "walk [] cleaned_prompts prompt_idx segments = segments"
| "walk (text # parts) cleaned_prompts prompt_idx segments =
     (let text' = strip text;
          segments' = (if text' \<noteq> [] then segments @ [Text text'] else segments)
      in if prompt_idx < length cleaned_prompts
         then walk parts cleaned_prompts (prompt_idx + 1)
                (segments' @ [Prompt (cleaned_prompts ! prompt_idx)])
         else walk parts cleaned_prompts prompt_idx segments')"

text \<open>
  The two attributes that \<open>_extract_prompt_before_filter\<close> may set on the event;
  \<open>None\<close> for an attribute that is not set.
\<close>

record extraction =
  comfy_extracted_prompt :: "ustr option"
  comfy_segments :: "segment list option"

definition no_extraction :: extraction where
  "no_extraction = \<lparr>comfy_extracted_prompt = None, comfy_segments = None\<rparr>"

text \<open>\<open>_extract_prompt_before_filter\<close> on the completion text of the response.\<close>

definition extract_prompt_before_filter :: "plugin \<Rightarrow> ustr \<Rightarrow> extraction" where
  "extract_prompt_before_filter st full_text =
     (if full_text = [] then no_extraction
      else let prompts = findall_prompts full_text in
        if prompts = [] then no_extraction
        else let cleaned_prompts = clean_prompts prompts in
          if cleaned_prompts = [] then no_extraction
          else if length cleaned_prompts = 1
          then no_extraction\<lparr>comfy_extracted_prompt := Some (cleaned_prompts ! 0)\<rparr>
          else if multi_image_mode st
          then (let parts = split_on_tags full_text;
                    segments = walk parts cleaned_prompts 0 []
                in if segments \<noteq> [] then no_extraction\<lparr>comfy_segments := Some segments\<rparr>
                   else no_extraction)
          else no_extraction\<lparr>comfy_extracted_prompt := Some (cleaned_prompts ! 0)\<rparr>)"

section \<open>Re-pairing for delivery\<close>

text \<open>
  A delivery pair is the dictionary \<open>{"text": ..., "prompt": ...}\<close> whose prompt may be
  \<open>None\<close>.  The re-pairing loop of \<open>_auto_paint_from_llm\<close> has the pending text
  \<open>current_text\<close> and the list \<open>pairs\<close> built so far by \<open>append\<close> as its state.
\<close>

type_synonym pair = "ustr \<times> ustr option"

fun pair_loop :: "segment list \<Rightarrow> ustr \<Rightarrow> pair list \<Rightarrow> ustr \<times> pair list" where
  "pair_loop [] current_text pairs = (current_text, pairs)"
| "pair_loop (Text content # segments) current_text pairs =
     pair_loop segments content pairs"
| "pair_loop (Prompt content # segments) current_text pairs =
     pair_loop segments [] (pairs @ [(current_text, Some content)])"

definition make_pairs :: "segment list \<Rightarrow> pair list" where
  "make_pairs segments =
     (case pair_loop segments [] [] of
        (current_text, pairs) \<Rightarrow>
          if current_text \<noteq> [] then pairs @ [(current_text, None)] else pairs)"

section \<open>Reference definitions and example data\<close>

text \<open>
  The definitions of this section are not translations of the source.  They restate, as
  recursive functions and predicates, the behaviour that the specification describes,
  and they fix the concrete inputs on which the theorems below are instantiated.
\<close>

text \<open>The prompts and the texts of a list of segments, in order.\<close>

fun prompts_of :: "segment list \<Rightarrow> ustr list" where
  "prompts_of [] = []"
| "prompts_of (Text t # segs) = prompts_of segs"
| "prompts_of (Prompt p # segs) = p # prompts_of segs"

fun texts_of :: "segment list \<Rightarrow> ustr list" where
  "texts_of [] = []"
| "texts_of (Text t # segs) = t # texts_of segs"
| "texts_of (Prompt p # segs) = texts_of segs"

fun is_text :: "segment \<Rightarrow> bool" where
  "is_text (Text t) = True"
| "is_text (Prompt p) = False"

text \<open>
  The walk of the specification: for each chunk, trim it and emit a text segment if it
  is not empty; then, if a prompt remains, emit it and advance.
\<close>

fun walk_spec :: "ustr list \<Rightarrow> ustr list \<Rightarrow> segment list" where
  "walk_spec [] prompts = []"
| "walk_spec (chunk # chunks) prompts =
     (if strip chunk \<noteq> [] then [Text (strip chunk)] else [])
     @ (case prompts of
          [] \<Rightarrow> walk_spec chunks []
        | p # rest \<Rightarrow> Prompt p # walk_spec chunks rest)"

text \<open>No two adjacent segments have the same type.\<close>

fun alternating :: "segment list \<Rightarrow> bool" where
  "alternating (x # y # segs) = (is_text x \<noteq> is_text y \<and> alternating (y # segs))"
| "alternating segs = True"

text \<open>No two adjacent segments are both text segments.\<close>

fun no_adjacent_texts :: "segment list \<Rightarrow> bool" where
  "no_adjacent_texts (Text a # Text b # segs) = False"
| "no_adjacent_texts (x # segs) = no_adjacent_texts segs"
| "no_adjacent_texts [] = True"

text \<open>Some two adjacent segments are both prompt segments.\<close>

fun adjacent_prompts :: "segment list \<Rightarrow> bool" where
  "adjacent_prompts (Prompt a # Prompt b # segs) = True"
| "adjacent_prompts (x # segs) = adjacent_prompts segs"
| "adjacent_prompts [] = False"

text \<open>
  The re-pairing of the specification: a text segment replaces the pending text, a
  prompt segment emits a pair and empties the pending text, and a pending text that is
  left at the end is emitted without a prompt.
\<close>

fun repair_spec :: "ustr \<Rightarrow> segment list \<Rightarrow> pair list" where
  "repair_spec pending [] = (if pending \<noteq> [] then [(pending, None)] else [])"
| "repair_spec pending (Text t # segs) = repair_spec t segs"
| "repair_spec pending (Prompt p # segs) = (pending, Some p) # repair_spec [] segs"

text \<open>
  An occurrence of a term at a position of a text: the term matches there without regard
  to case, and for a word term neither neighbour of the occurrence is a word
  character.
\<close>

definition word_occurs :: "ustr \<Rightarrow> ustr \<Rightarrow> nat \<Rightarrow> bool" where
  "word_occurs t s pos =
     (ci_prefix t (drop pos s) \<and> lookbehind_ok s pos \<and> lookahead_ok s (pos + length t))"

definition phrase_occurs :: "ustr \<Rightarrow> ustr \<Rightarrow> nat \<Rightarrow> bool" where
  "phrase_occurs t s pos = ci_prefix t (drop pos s)"

text \<open>
  Removal of duplicates by lower-cased key, keeping the first occurrence of every key in
  order.
\<close>

fun dedup_spec :: "ustr list \<Rightarrow> ustr list" where
  "dedup_spec [] = []"
| "dedup_spec (w # ws) = w # dedup_spec (filter (\<lambda>v. py_lower v \<noteq> py_lower w) ws)"

text \<open>The alphanumeric characters (\<open>str.isalnum\<close>) below U+0100.\<close>

definition is_alnum_latin1 :: "nat \<Rightarrow> bool" where
  "is_alnum_latin1 c =
     (is_ascii_letter c \<or> (48 \<le> c \<and> c \<le> 57) \<or> c = 170 \<or> c = 178 \<or> c = 179 \<or> c = 181
      \<or> c = 185 \<or> c = 186 \<or> (188 \<le> c \<and> c \<le> 190) \<or> (192 \<le> c \<and> c \<le> 214)
      \<or> (216 \<le> c \<and> c \<le> 246) \<or> (248 \<le> c \<and> c \<le> 255))"

text \<open>The pattern compiled from the lexicon of the example plugin.\<close>

definition cat_pattern :: pattern where
  "cat_pattern = \<lparr>word_terms = [pystr ''cat'', pystr ''foo''], phrase_terms = []\<rparr>"

text \<open>
  A character and a case variant of it: the same character, or two ASCII characters
  that differ at most in case.  Two texts are the same up to case when they have the same
  length and agree up to case variants at every position; they may hold any characters
  outside ASCII.
\<close>

definition case_variant :: "nat \<Rightarrow> nat \<Rightarrow> bool" where
  "case_variant d d' = (d = d' \<or> (d < 128 \<and> d' < 128 \<and> ascii_lower d = ascii_lower d'))"

definition same_up_to_case :: "ustr \<Rightarrow> ustr \<Rightarrow> bool" where
  "same_up_to_case s s' = list_all2 case_variant s s'"

text \<open>
  \<open>str.casefold()\<close>.  As for \<open>py_lower\<close>, the table is complete for the code points
  that a pattern of ASCII terms can match; unlike \<open>str.lower()\<close> it folds LATIN SMALL
  LETTER LONG S U+017F to \<open>s\<close>.
\<close>

definition casefold_char :: "nat \<Rightarrow> ustr" where
  "casefold_char c =
     (if 65 \<le> c \<and> c \<le> 90 then [c + 32]
      else if c = 8490 then [107]
      else if c = 383 then [115]
      else if c = 304 then [105, 775]
      else [c])"

definition py_casefold :: "ustr \<Rightarrow> ustr" where
  "py_casefold s = concat (map casefold_char s)"

text \<open>A plugin object: one administrator, multi-image mode on, a lexicon of one category.\<close>

definition example_plugin :: plugin where
  "example_plugin =
     \<lparr>cooldown_seconds = 60, user_cooldowns = [pystr ''42'' \<mapsto> 1000],
      admin_user_ids = {pystr ''1''}, admin_bypass_cooldown = True,
      admin_bypass_sensitive = True, default_group_policy = pystr ''lite'',
      default_private_policy = pystr ''full'', group_policies = Map.empty,
      lexicon = [pystr ''legacy_lite'' \<mapsto> [pystr ''cat'', pystr ''foo'']],
      multi_image_mode = True\<rparr>"

text \<open>The same plugin with a lexicon whose only category is not one of the ten of \<open>full\<close>.\<close>

definition extra_plugin :: plugin where
  "extra_plugin = example_plugin\<lparr>lexicon := [pystr ''extra'' \<mapsto> [pystr ''badword'']]\<rparr>"

text \<open>An event of a private chat.\<close>

definition private_event :: event where
  "private_event = \<lparr>is_group_message = False, group_id = None, sender_id = pystr ''42''\<rparr>"

text \<open>
  A plugin whose lexicon has six one-letter terms, and a prompt in which all six occur.
\<close>

definition six_terms :: "ustr list" where
  "six_terms = [pystr ''a'', pystr ''b'', pystr ''c'', pystr ''d'', pystr ''e'', pystr ''f'']"

definition six_plugin :: plugin where
  "six_plugin = example_plugin\<lparr>lexicon := [pystr ''legacy_lite'' \<mapsto> six_terms]\<rparr>"

definition six_prompt :: ustr where
  "six_prompt = pystr ''a b c d e f''"

text \<open>A plugin whose lexicon has the one term \<open>sun\<close>.\<close>

definition sun_plugin :: plugin where
  "sun_plugin = example_plugin\<lparr>lexicon := [pystr ''legacy_lite'' \<mapsto> [pystr ''sun'']]\<rparr>"

definition pairs_example :: "segment list" where
  "pairs_example =
     [Text (pystr ''intro''), Prompt (pystr ''p1''), Text (pystr ''middle''),
      Prompt (pystr ''p2''), Text (pystr ''tail'')]"

definition single_tag_text :: ustr where
  "single_tag_text =
     pystr ''draw this '' @ open_tag @ pystr ''a cat'' @ close_tag @ pystr '' please''"

definition two_tags_text :: ustr where
  "two_tags_text =
     pystr ''intro '' @ open_tag @ pystr ''p1'' @ close_tag @ pystr '' middle ''
     @ open_tag @ pystr ''p2'' @ close_tag @ pystr '' tail''"

definition adjacent_tags_text :: ustr where
  "adjacent_tags_text =
     open_tag @ pystr ''a'' @ close_tag @ open_tag @ pystr ''b'' @ close_tag"

section \<open>Properties of the cooldown check\<close>

text \<open>
  C4.  For a user who is not an administrator with cooldown bypass, the check fails
  exactly when the time elapsed since the recorded time stamp is strictly less than the
  configured duration; then it reports the whole-second truncation of duration minus
  elapsed and leaves the state unchanged.  Otherwise it passes and records the current
  time for that user, so that a later check of the same user is measured from it.
\<close>

theorem check_cooldown_spec:
  assumes "\<not> (user_id \<in> admin_user_ids st \<and> admin_bypass_cooldown st)"
    and "elapsed = now - last_time st user_id"
    and "st' = st\<lparr>user_cooldowns := (user_cooldowns st)(user_id \<mapsto> now)\<rparr>"
  shows "(elapsed < cooldown_seconds st \<longrightarrow>
            check_cooldown st user_id now =
              ((False, py_int (cooldown_seconds st - elapsed)), st)
            \<and> py_int (cooldown_seconds st - elapsed) = \<lfloor>cooldown_seconds st - elapsed\<rfloor>)
       \<and> (\<not> elapsed < cooldown_seconds st \<longrightarrow>
            check_cooldown st user_id now = ((True, 0), st')
            \<and> last_time st' user_id = now
            \<and> (\<forall>later. fst (fst (check_cooldown st' user_id later))
                          = (\<not> later - now < cooldown_seconds st)))"
  using assms by (auto simp: check_cooldown_def Let_def last_time_def py_int_def)

theorem check_cooldown_spec_witness:
  "check_cooldown example_plugin (pystr ''42'') 1010 = ((False, 50), example_plugin)"
proof -
  have na: "\<not> (pystr ''42'' \<in> admin_user_ids example_plugin
               \<and> admin_bypass_cooldown example_plugin)"
    by (simp add: example_plugin_def pystr_def)
  have lt: "last_time example_plugin (pystr ''42'') = 1000"
    by (simp add: example_plugin_def last_time_def)
  show ?thesis
    using check_cooldown_spec [OF na, of 10 1010] lt
    by (simp add: example_plugin_def py_int_def)
qed

section \<open>Properties of the re-pairing\<close>

lemma pair_loop_repair:
  "(case pair_loop segs cur acc of
      (c, ps) \<Rightarrow> if c \<noteq> [] then ps @ [(c, None)] else ps) = acc @ repair_spec cur segs"
  by (induction segs cur acc rule: pair_loop.induct) auto

lemma make_pairs_repair: "make_pairs segs = repair_spec [] segs"
  using pair_loop_repair [of segs "[]" "[]"] by (simp add: make_pairs_def)

lemma repair_spec_prompts:
  "map snd (filter (\<lambda>pr. snd pr \<noteq> None) (repair_spec cur segs)) = map Some (prompts_of segs)"
  by (induction cur segs rule: repair_spec.induct) auto

lemma repair_spec_text_prompt:
  "(t, Some p) \<in> set (repair_spec cur (pre @ Text t # Prompt p # post))"
proof (induction pre arbitrary: cur)
  case Nil
  then show ?case by simp
next
  case (Cons s pre)
  then show ?case by (cases s) auto
qed

lemma repair_spec_prompt_prompt:
  "([], Some p) \<in> set (repair_spec cur (pre @ Prompt q # Prompt p # post))"
proof (induction pre arbitrary: cur)
  case Nil
  then show ?case by simp
next
  case (Cons s pre)
  then show ?case by (cases s) auto
qed

lemma repair_spec_nones:
  "length (filter (\<lambda>pr. snd pr = None) (repair_spec cur segs)) \<le> 1"
  by (induction cur segs rule: repair_spec.induct) auto

text \<open>
  C9.  Re-pairing for delivery: walking any segment sequence with the pending text
  initially empty, a text segment replaces the pending text, a prompt segment emits the
  pair of the pending text and that prompt and empties the pending text, and a pending
  text that is not empty after the walk emits exactly one final pair without a prompt.
  So the prompts of the pairs are the prompt segments in order, at most one pair has no
  prompt, a prompt directly after a text segment is paired with that text, and a prompt
  directly after another prompt is paired with the empty text.
\<close>

theorem make_pairs_spec:
  "make_pairs segs = repair_spec [] segs
   \<and> map snd (filter (\<lambda>pr. snd pr \<noteq> None) (make_pairs segs)) = map Some (prompts_of segs)
   \<and> length (filter (\<lambda>pr. snd pr = None) (make_pairs segs)) \<le> 1
   \<and> (\<forall>pre t p post. segs = pre @ Text t # Prompt p # post
         \<longrightarrow> (t, Some p) \<in> set (make_pairs segs))
   \<and> (\<forall>pre q p post. segs = pre @ Prompt q # Prompt p # post
         \<longrightarrow> ([], Some p) \<in> set (make_pairs segs))"
proof (intro conjI allI impI)
  show "make_pairs segs = repair_spec [] segs"
    by (rule make_pairs_repair)
  show "map snd (filter (\<lambda>pr. snd pr \<noteq> None) (make_pairs segs)) = map Some (prompts_of segs)"
    unfolding make_pairs_repair by (rule repair_spec_prompts)
  show "length (filter (\<lambda>pr. snd pr = None) (make_pairs segs)) \<le> 1"
    unfolding make_pairs_repair by (rule repair_spec_nones)
next
  fix pre t p post
  assume eq: "segs = pre @ Text t # Prompt p # post"
  show "(t, Some p) \<in> set (make_pairs segs)"
    unfolding make_pairs_repair eq by (rule repair_spec_text_prompt)
next
  fix pre q p post
  assume eq: "segs = pre @ Prompt q # Prompt p # post"
  show "([], Some p) \<in> set (make_pairs segs)"
    unfolding make_pairs_repair eq by (rule repair_spec_prompt_prompt)
qed

theorem make_pairs_spec_witness:
  "make_pairs pairs_example
   = [(pystr ''intro'', Some (pystr ''p1'')), (pystr ''middle'', Some (pystr ''p2'')),
      (pystr ''tail'', None)]"
proof -
  have ne: "pystr ''tail'' \<noteq> []" by (simp add: pystr_def)
  have "make_pairs pairs_example = repair_spec [] pairs_example"
    using make_pairs_spec [of pairs_example] by (rule conjunct1)
  also have "\<dots> = [(pystr ''intro'', Some (pystr ''p1'')), (pystr ''middle'', Some (pystr ''p2'')),
      (pystr ''tail'', None)]"
    using ne by (simp add: pairs_example_def)
  finally show ?thesis .
qed

section \<open>Properties of the segmenter\<close>

lemma findall_nil: "findall_prompts [] = []"
  by (simp add: findall_prompts.simps next_tag_def open_tag_def)

text \<open>
  C8.  When exactly one usable prompt is found between the tags of the completion text,
  the segmenter sets that prompt as the single extracted prompt and sets no segment
  list, whether multi-image mode is on or off.
\<close>

theorem single_prompt_extracted:
  assumes "clean_prompts (findall_prompts full_text) = [p]"
  shows "extract_prompt_before_filter st full_text =
           \<lparr>comfy_extracted_prompt = Some p, comfy_segments = None\<rparr>"
proof -
  have ne: "full_text \<noteq> []"
    using assms findall_nil by (auto simp: clean_prompts_def)
  have fe: "findall_prompts full_text \<noteq> []"
    using assms by (auto simp: clean_prompts_def)
  show ?thesis
    using assms ne fe
    by (simp add: extract_prompt_before_filter_def Let_def no_extraction_def)
qed

lemma single_tag_cleaned:
  "clean_prompts (findall_prompts single_tag_text) = [pystr ''a cat'']"
  by (simp add: single_tag_text_def pystr_def open_tag_def close_tag_def next_tag_def
      findall_prompts.simps clean_prompts_def clean_prompt_def
      remove_label_def label_def strip_def strip_chars_def is_space_def is_wrapper_def)

theorem single_prompt_extracted_witness:
  "extract_prompt_before_filter example_plugin single_tag_text =
     \<lparr>comfy_extracted_prompt = Some (pystr ''a cat''), comfy_segments = None\<rparr>"
  using single_prompt_extracted [OF single_tag_cleaned] .

lemma walk_walk_spec:
  "walk parts cleaned i segs = segs @ walk_spec parts (drop i cleaned)"
proof (induction parts arbitrary: i segs)
  case Nil
  then show ?case by simp
next
  case (Cons c cs)
  show ?case
  proof (cases "i < length cleaned")
    case True
    then have "drop i cleaned = cleaned ! i # drop (Suc i) cleaned"
      by (simp add: Cons_nth_drop_Suc)
    with True Cons.IH show ?thesis by (simp add: Let_def)
  next
    case False
    then have "drop i cleaned = []" by simp
    with False Cons.IH [of i] show ?thesis by (simp add: Let_def)
  qed
qed

lemma prompts_of_append: "prompts_of (xs @ ys) = prompts_of xs @ prompts_of ys"
  by (induction xs rule: prompts_of.induct) auto

lemma texts_of_append: "texts_of (xs @ ys) = texts_of xs @ texts_of ys"
  by (induction xs rule: texts_of.induct) auto

lemma prompts_of_walk_spec: "prompts_of (walk_spec chunks ps) = take (length chunks) ps"
  by (induction chunks arbitrary: ps) (auto simp: prompts_of_append split: list.splits)

lemma texts_of_walk_spec:
  "texts_of (walk_spec chunks ps) = filter (\<lambda>t. t \<noteq> []) (map strip chunks)"
  by (induction chunks arbitrary: ps) (auto simp: texts_of_append split: list.splits)

lemma no_adjacent_texts_walk_spec:
  "length chunks = Suc (length ps) \<Longrightarrow> no_adjacent_texts (walk_spec chunks ps)"
proof (induction chunks arbitrary: ps)
  case Nil
  then show ?case by simp
next
  case (Cons c cs)
  show ?case
  proof (cases ps)
    case Nil
    with Cons.prems have "cs = []" by simp
    then show ?thesis using Nil by simp
  next
    case (Cons p rest)
    with Cons.prems have "length cs = Suc (length rest)" by simp
    then have "no_adjacent_texts (walk_spec cs rest)" by (rule Cons.IH)
    with Cons show ?thesis by simp
  qed
qed

lemma alternating_after_prompt:
  "length chunks = Suc (length ps) \<Longrightarrow>
     alternating (Prompt p # walk_spec chunks ps) = (\<forall>c\<in>set (butlast chunks). strip c \<noteq> [])"
proof (induction chunks arbitrary: ps p)
  case Nil
  then show ?case by simp
next
  case (Cons c cs)
  show ?case
  proof (cases ps)
    case Nil
    with Cons.prems have "cs = []" by simp
    then show ?thesis using Nil by simp
  next
    case ps: (Cons q rest)
    with Cons.prems have l: "length cs = Suc (length rest)" by simp
    then have ne: "cs \<noteq> []" by auto
    from Cons.IH [OF l, of q] ps ne show ?thesis by simp
  qed
qed

lemma alternating_walk_spec:
  assumes "length chunks = Suc (length ps)" and "ps \<noteq> []"
  shows "alternating (walk_spec chunks ps) = (\<forall>c\<in>set (tl (butlast chunks)). strip c \<noteq> [])"
proof -
  from assms obtain c cs p rest where c: "chunks = c # cs" and p: "ps = p # rest"
    by (cases chunks; cases ps) auto
  with assms(1) have l: "length cs = Suc (length rest)" by simp
  then have ne: "cs \<noteq> []" by auto
  from alternating_after_prompt [OF l, of p] c p ne show ?thesis by simp
qed

lemma alternating_iff:
  "no_adjacent_texts segs \<Longrightarrow> alternating segs = (\<not> adjacent_prompts segs)"
  apply (induction segs rule: alternating.induct)
  subgoal for x y segs by (cases x; cases y) auto
  subgoal by simp
  subgoal for v by (cases v) auto
  done

lemma length_split_on_tags:
  "length (split_on_tags str) = Suc (length (findall_prompts str))"
proof (induction "length str" arbitrary: str rule: less_induct)
  case less
  show ?case
  proof (cases "next_tag str")
    case None
    then show ?thesis by (simp add: findall_prompts.simps [of str] split_on_tags.simps [of str])
  next
    case (Some r)
    obtain b c rest where r: "r = (b, c, rest)" by (cases r)
    with Some have "length rest < length str" by (simp add: next_tag_shorter)
    then have "length (split_on_tags rest) = Suc (length (findall_prompts rest))"
      by (rule less)
    with Some r show ?thesis
      by (simp add: findall_prompts.simps [of str] split_on_tags.simps [of str])
  qed
qed

lemma length_clean_prompts: "length (clean_prompts ps) \<le> length ps"
  by (simp add: clean_prompts_def)

text \<open>
  C3 (as amended).  With multi-image mode on, more than one usable prompt, and every
  tagged region giving a usable prompt, the segmenter sets no single prompt and sets the
  segment list that the walk of the specification gives on the chunks between the tags:
  its prompt segments are the prompts in order, its text segments are the chunks that
  are not empty after trimming, no two text segments are adjacent, and two prompt
  segments are adjacent exactly when some chunk between two tags is empty after
  trimming: the list is alternating exactly when no such chunk is empty.  The
  completions in which a tagged region gives no usable prompt are left out.
\<close>

theorem multi_image_segments:
  assumes "multi_image_mode st"
    and "prompts = findall_prompts full_text"
    and "cleaned = clean_prompts prompts"
    and "length cleaned > 1"
    and "length cleaned = length prompts"
    and "parts = split_on_tags full_text"
  shows "\<exists>segs. extract_prompt_before_filter st full_text =
                  \<lparr>comfy_extracted_prompt = None, comfy_segments = Some segs\<rparr>
          \<and> segs = walk_spec parts cleaned
          \<and> prompts_of segs = cleaned
          \<and> texts_of segs = filter (\<lambda>t. t \<noteq> []) (map strip parts)
          \<and> no_adjacent_texts segs
          \<and> alternating segs = (\<forall>c\<in>set (tl (butlast parts)). strip c \<noteq> [])
          \<and> adjacent_prompts segs = (\<exists>c\<in>set (tl (butlast parts)). strip c = [])"
proof -
  let ?segs = "walk_spec parts cleaned"
  have w: "walk parts cleaned 0 [] = ?segs"
    by (simp add: walk_walk_spec)
  have lp: "length parts = Suc (length cleaned)"
    using assms(2,5,6) length_split_on_tags [of full_text] by simp
  then have p: "prompts_of ?segs = cleaned"
    by (simp add: prompts_of_walk_spec)
  have ce: "cleaned \<noteq> []"
    using assms(4) by auto
  have ne: "?segs \<noteq> []"
    using p ce by auto
  from ce have fe: "findall_prompts full_text \<noteq> []"
    using assms(2,3) by (auto simp: clean_prompts_def)
  then have te: "full_text \<noteq> []"
    using findall_nil by auto
  have e: "extract_prompt_before_filter st full_text =
          \<lparr>comfy_extracted_prompt = None, comfy_segments = Some ?segs\<rparr>"
    using assms ce fe te w ne
    by (simp add: extract_prompt_before_filter_def Let_def no_extraction_def)
  have t: "texts_of ?segs = filter (\<lambda>t. t \<noteq> []) (map strip parts)"
    by (rule texts_of_walk_spec)
  have n: "no_adjacent_texts ?segs"
    using lp by (rule no_adjacent_texts_walk_spec)
  have a: "alternating ?segs = (\<forall>c\<in>set (tl (butlast parts)). strip c \<noteq> [])"
    using lp ce by (rule alternating_walk_spec)
  have ap: "adjacent_prompts ?segs = (\<exists>c\<in>set (tl (butlast parts)). strip c = [])"
    using alternating_iff [OF n] a by blast
  show ?thesis
  proof (intro exI [of _ ?segs] conjI)
    show "extract_prompt_before_filter st full_text =
          \<lparr>comfy_extracted_prompt = None, comfy_segments = Some ?segs\<rparr>" by (rule e)
    show "?segs = walk_spec parts cleaned" by (rule refl)
    show "prompts_of ?segs = cleaned" by (rule p)
    show "texts_of ?segs = filter (\<lambda>t. t \<noteq> []) (map strip parts)" by (rule t)
    show "no_adjacent_texts ?segs" by (rule n)
    show "alternating ?segs = (\<forall>c\<in>set (tl (butlast parts)). strip c \<noteq> [])" by (rule a)
    show "adjacent_prompts ?segs = (\<exists>c\<in>set (tl (butlast parts)). strip c = [])" by (rule ap)
  qed
qed

lemma two_tags_found:
  "findall_prompts two_tags_text = [pystr ''p1'', pystr ''p2'']"
  by (simp add: two_tags_text_def pystr_def open_tag_def close_tag_def next_tag_def
      findall_prompts.simps)

lemma two_tags_cleaned:
  "clean_prompts [pystr ''p1'', pystr ''p2''] = [pystr ''p1'', pystr ''p2'']"
  by (simp add: pystr_def clean_prompts_def clean_prompt_def
      remove_label_def label_def strip_def strip_chars_def is_space_def is_wrapper_def)

lemma two_tags_split:
  "split_on_tags two_tags_text = [pystr ''intro '', pystr '' middle '', pystr '' tail'']"
  by (simp add: two_tags_text_def pystr_def open_tag_def close_tag_def next_tag_def
      split_on_tags.simps)

lemma two_tags_walk:
  "walk_spec [pystr ''intro '', pystr '' middle '', pystr '' tail'']
     [pystr ''p1'', pystr ''p2''] = pairs_example"
  by (simp add: pairs_example_def pystr_def strip_def strip_chars_def is_space_def)

theorem multi_image_segments_witness:
  "extract_prompt_before_filter example_plugin two_tags_text =
     \<lparr>comfy_extracted_prompt = None, comfy_segments = Some pairs_example\<rparr>
   \<and> no_adjacent_texts pairs_example"
proof -
  have m: "multi_image_mode example_plugin"
    by (simp add: example_plugin_def)
  have l: "length [pystr ''p1'', pystr ''p2''] > 1"
    by simp
  have q: "length [pystr ''p1'', pystr ''p2''] = length [pystr ''p1'', pystr ''p2'']"
    by simp
  from multi_image_segments [OF m two_tags_found [symmetric] two_tags_cleaned [symmetric] l q
      two_tags_split [symmetric]]
  obtain segs where
    e: "extract_prompt_before_filter example_plugin two_tags_text =
          \<lparr>comfy_extracted_prompt = None, comfy_segments = Some segs\<rparr>" and
    s: "segs = walk_spec [pystr ''intro '', pystr '' middle '', pystr '' tail'']
                 [pystr ''p1'', pystr ''p2'']" and
    t: "no_adjacent_texts segs"
    by (elim exE conjE)
  from s have "segs = pairs_example" by (simp only: two_tags_walk)
  with e t show ?thesis by simp
qed

lemma adjacent_tags_eval:
  "extract_prompt_before_filter example_plugin adjacent_tags_text =
     \<lparr>comfy_extracted_prompt = None, comfy_segments = Some [Prompt [97], Prompt [98]]\<rparr>"
  by (simp add: extract_prompt_before_filter_def Let_def no_extraction_def example_plugin_def
      adjacent_tags_text_def pystr_def open_tag_def close_tag_def next_tag_def
      findall_prompts.simps split_on_tags.simps clean_prompts_def clean_prompt_def
      remove_label_def label_def strip_def strip_chars_def is_space_def is_wrapper_def)

text \<open>
  C3 as stated fails: two tags with nothing between them, each with a usable prompt,
  give two adjacent prompt segments.
\<close>

theorem alternating_counterexample:
  "comfy_segments (extract_prompt_before_filter example_plugin adjacent_tags_text)
     = Some [Prompt (pystr ''a''), Prompt (pystr ''b'')]
   \<and> \<not> alternating [Prompt (pystr ''a''), Prompt (pystr ''b'')]"
  by (simp add: adjacent_tags_eval pystr_def)


section \<open>Properties of the matcher\<close>

lemma set_fromkeys: "set (fromkeys xs) = set xs"
  by (induction xs rule: fromkeys.induct) auto

lemma first_word_Some:
  "first_word ts s pos = Some n \<Longrightarrow>
     \<exists>t\<in>set ts. n = length t \<and> ci_prefix t (drop pos s) \<and> lookahead_ok s (pos + length t)"
  by (induction ts) (auto split: if_splits)

lemma first_word_None:
  "(first_word ts s pos = None) =
     (\<forall>t\<in>set ts. \<not> (ci_prefix t (drop pos s) \<and> lookahead_ok s (pos + length t)))"
  by (induction ts) auto

lemma first_phrase_Some:
  "first_phrase ts s pos = Some n \<Longrightarrow> \<exists>t\<in>set ts. n = length t \<and> ci_prefix t (drop pos s)"
  by (induction ts) (auto split: if_splits)

lemma first_phrase_None:
  "(first_phrase ts s pos = None) = (\<forall>t\<in>set ts. \<not> ci_prefix t (drop pos s))"
  by (induction ts) auto

lemma match_at_None:
  "(match_at pat s pos = None) =
     ((\<forall>t\<in>set (word_terms pat). \<not> word_occurs t s pos)
      \<and> (\<forall>t\<in>set (phrase_terms pat). \<not> phrase_occurs t s pos))"
proof -
  have w: "(first_word (word_terms pat) s pos = None) =
      (\<forall>t\<in>set (word_terms pat). \<not> (ci_prefix t (drop pos s)
          \<and> lookahead_ok s (pos + length t)))"
    by (rule first_word_None)
  have p: "(first_phrase (phrase_terms pat) s pos = None) =
      (\<forall>t\<in>set (phrase_terms pat). \<not> ci_prefix t (drop pos s))"
    by (rule first_phrase_None)
  show ?thesis
  proof (cases "lookbehind_ok s pos")
    case True
    show ?thesis
    proof (cases "first_word (word_terms pat) s pos")
      case None
      with True w p show ?thesis
        by (auto simp: match_at_def word_occurs_def phrase_occurs_def)
    next
      case (Some n)
      then have "\<not> (\<forall>t\<in>set (word_terms pat). \<not> (ci_prefix t (drop pos s)
          \<and> lookahead_ok s (pos + length t)))"
        using w by simp
      with True Some show ?thesis
        by (auto simp: match_at_def word_occurs_def)
    qed
  next
    case False
    with p show ?thesis
      by (auto simp: match_at_def word_occurs_def phrase_occurs_def)
  qed
qed

lemma match_at_mono:
  assumes "set (word_terms p1) \<subseteq> set (word_terms p2)"
    and "set (phrase_terms p1) \<subseteq> set (phrase_terms p2)"
    and "match_at p1 s pos \<noteq> None"
  shows "match_at p2 s pos \<noteq> None"
  using assms unfolding match_at_None by blast

lemma finditer_member:
  "(pos, n) \<in> set (finditer_from pat s k) \<Longrightarrow>
     k \<le> pos \<and> pos < length s \<and> match_at pat s pos = Some n"
proof (induction pat s k rule: finditer_from.induct)
  case (1 pat s k)
  show ?case
  proof (cases "length s \<le> k")
    case True
    with "1.prems" show ?thesis by (simp add: finditer_from.simps [of pat s k])
  next
    case False
    show ?thesis
    proof (cases "match_at pat s k")
      case None
      with False "1.prems" have "(pos, n) \<in> set (finditer_from pat s (Suc k))"
        by (simp add: finditer_from.simps [of pat s k])
      with "1.IH"(1) [OF False None] show ?thesis by simp
    next
      case (Some m)
      with False "1.prems" have
        "(pos, n) = (k, m) \<or> (pos, n) \<in> set (finditer_from pat s (k + max 1 m))"
        by (simp add: finditer_from.simps [of pat s k])
      then show ?thesis
      proof
        assume "(pos, n) = (k, m)"
        with False Some show ?thesis by simp
      next
        assume "(pos, n) \<in> set (finditer_from pat s (k + max 1 m))"
        with "1.IH"(2) [OF False Some] show ?thesis by simp
      qed
    qed
  qed
qed

lemma finditer_nonempty:
  "\<lbrakk>k \<le> pos; pos < length s; match_at pat s pos \<noteq> None\<rbrakk> \<Longrightarrow> finditer_from pat s k \<noteq> []"
proof (induction pat s k rule: finditer_from.induct)
  case (1 pat s k)
  from "1.prems" have kl: "\<not> length s \<le> k" by simp
  show ?case
  proof (cases "match_at pat s k")
    case None
    with "1.prems" have "k \<noteq> pos" by auto
    with "1.prems" have "Suc k \<le> pos" by simp
    with "1.IH"(1) [OF kl None] "1.prems" have "finditer_from pat s (Suc k) \<noteq> []" by simp
    with kl None show ?thesis by (simp add: finditer_from.simps [of pat s k])
  next
    case (Some m)
    with kl show ?thesis by (simp add: finditer_from.simps [of pat s k])
  qed
qed

lemma finditer_nonempty_iff:
  "(finditer_from pat s 0 \<noteq> []) = (\<exists>pos < length s. match_at pat s pos \<noteq> None)"
proof
  assume "finditer_from pat s 0 \<noteq> []"
  then obtain pos n where "(pos, n) \<in> set (finditer_from pat s 0)"
    by (cases "finditer_from pat s 0") auto
  from finditer_member [OF this] show "\<exists>pos < length s. match_at pat s pos \<noteq> None" by auto
next
  assume "\<exists>pos < length s. match_at pat s pos \<noteq> None"
  then show "finditer_from pat s 0 \<noteq> []" using finditer_nonempty by blast
qed

lemma collect_loop_spec:
  "collect_loop ws seen res = res @ dedup_spec (filter (\<lambda>w. py_lower w \<notin> set seen) ws)"
proof (induction ws arbitrary: seen res)
  case Nil
  then show ?case by simp
next
  case (Cons w ws)
  have f: "filter (\<lambda>v. py_lower v \<noteq> py_lower w) (filter (\<lambda>v. py_lower v \<notin> set seen) ws)
        = filter (\<lambda>v. py_lower v \<notin> set (py_lower w # seen)) ws"
    by (induction ws) auto
  show ?case by (simp add: Cons.IH Let_def f del: filter_filter)
qed

lemma collect_loop_dedup: "collect_loop ws [] [] = dedup_spec ws"
  by (simp add: collect_loop_spec)

lemma set_dedup_spec: "set (dedup_spec ws) \<subseteq> set ws"
  by (induction ws rule: dedup_spec.induct) auto

lemma distinct_dedup_spec: "distinct (map py_lower (dedup_spec ws))"
proof (induction ws rule: dedup_spec.induct)
  case 1
  then show ?case by simp
next
  case (2 w ws)
  have "py_lower w \<notin> py_lower ` set (dedup_spec (filter (\<lambda>v. py_lower v \<noteq> py_lower w) ws))"
    using set_dedup_spec [of "filter (\<lambda>v. py_lower v \<noteq> py_lower w) ws"] by auto
  with 2 show ?case by simp
qed

lemma keys_dedup_spec: "py_lower ` set (dedup_spec ws) = py_lower ` set ws"
proof (induction ws rule: dedup_spec.induct)
  case 1
  then show ?case by simp
next
  case (2 w ws)
  then show ?case by auto
qed

lemma dedup_spec_nonempty: "(dedup_spec ws = []) = (ws = [])"
  by (cases ws) auto

lemma fromkeys_Nil: "(fromkeys xs = []) = (xs = [])"
  by (cases xs) auto

lemma build_pattern_Some:
  "build_pattern lx cats = Some pat \<Longrightarrow>
     set (word_terms pat) = {t \<in> set (kept_terms lx cats). \<not> has_space t}
     \<and> set (phrase_terms pat) = {t \<in> set (kept_terms lx cats). has_space t}"
  by (auto simp: build_pattern_def Let_def set_fromkeys split: if_splits)

lemma build_pattern_None: "(build_pattern lx cats = None) = (kept_terms lx cats = [])"
proof -
  have "(filter (\<lambda>t. \<not> has_space t) xs = [] \<and> filter has_space xs = []) = (xs = [])" for xs
    by (induction xs) auto
  then show ?thesis
    by (simp add: build_pattern_def Let_def fromkeys_Nil)
qed

lemma kept_terms_mono: "set c1 \<subseteq> set c2 \<Longrightarrow> set (kept_terms lx c1) \<subseteq> set (kept_terms lx c2)"
  by (auto simp: kept_terms_def)

lemma kept_terms_member:
  "\<lbrakk>cat \<in> set cats; lx cat = Some ts; t \<in> set ts; t \<noteq> []; is_ascii_term t\<rbrakk>
     \<Longrightarrow> t \<in> set (kept_terms lx cats)"
  by (auto simp: kept_terms_def lexicon_get_def intro!: bexI [of _ cat])

lemma ci_literal_space: "ci_literal c d \<Longrightarrow> (d = 32) = (c = 32)"
  by (auto simp: ci_literal_def is_ascii_letter_def ascii_lower_def split: if_splits)

lemma ci_prefix_space: "ci_prefix t s \<Longrightarrow> has_space (take (length t) s) = has_space t"
  by (induction t s rule: ci_prefix.induct) (auto simp: has_space_def dest: ci_literal_space)

lemma ci_prefix_nonempty: "ci_prefix t s \<Longrightarrow> t \<noteq> [] \<Longrightarrow> s \<noteq> []"
  by (cases t; cases s) auto

lemma word_char_ascii:
  "is_ascii_letter c \<or> (48 \<le> c \<and> c \<le> 57) \<or> c = 95 \<Longrightarrow> is_word_char c"
  by (auto simp: is_word_char_def)

text \<open>
  C6 (as amended).  A single-token ASCII term of an active category matches an
  occurrence in the text only when neither the character before nor the character after
  the occurrence is in the class \<open>[A-Za-z0-9_]\<close> of the pattern: whenever a reported
  match is an occurrence of a kept term without a space, the match does not start after
  a word character and does not end before one, and every ASCII letter, ASCII digit and
  underscore is a word character.  So \<open>cat\<close> does not match in \<open>category\<close> and
  matches in \<open>a cat sat\<close>.
\<close>

theorem word_term_boundaries:
  assumes "build_pattern lx cats = Some pat"
    and "(pos, n) \<in> set (finditer_from pat s 0)"
    and "t \<in> set (kept_terms lx cats)"
    and "\<not> has_space t"
    and "length t = n"
    and "ci_prefix t (drop pos s)"
  shows "(if pos = 0 then True else \<not> is_word_char (s ! (pos - 1)))
       \<and> (if length s \<le> pos + n then True else \<not> is_word_char (s ! (pos + n)))
       \<and> (\<forall>c. is_ascii_letter c \<or> (48 \<le> c \<and> c \<le> 57) \<or> c = 95 \<longrightarrow> is_word_char c)"
proof -
  from finditer_member [OF assms(2)] have m: "match_at pat s pos = Some n" by simp
  have ns: "\<not> has_space (take n (drop pos s))"
    using ci_prefix_space [OF assms(6)] assms(4,5) by simp
  have np: "first_phrase (phrase_terms pat) s pos \<noteq> Some n"
  proof
    assume "first_phrase (phrase_terms pat) s pos = Some n"
    from first_phrase_Some [OF this] obtain p where
      p: "p \<in> set (phrase_terms pat)" "n = length p" "ci_prefix p (drop pos s)" by blast
    from p(1) build_pattern_Some [OF assms(1)] have "has_space p" by simp
    with ci_prefix_space [OF p(3)] p(2) ns show False by simp
  qed
  from m np have lb: "lookbehind_ok s pos"
    and fw: "first_word (word_terms pat) s pos = Some n"
    by (auto simp: match_at_def split: option.splits if_splits)
  from first_word_Some [OF fw] have la: "lookahead_ok s (pos + n)" by auto
  from lb la show ?thesis
    by (simp add: lookbehind_ok_def lookahead_ok_def word_char_ascii)
qed

lemma cat_pattern_built:
  "build_pattern (lexicon example_plugin) full_categories = Some cat_pattern"
  by (simp add: build_pattern_def Let_def kept_terms_def lexicon_get_def example_plugin_def
      full_categories_def cat_pattern_def pystr_def is_ascii_term_def has_space_def)

lemma cat_sat_matches: "finditer_from cat_pattern (pystr ''a cat sat'') 0 = [(2, 3)]"
  by (simp add: finditer_from.simps cat_pattern_def pystr_def match_at_def lookbehind_ok_def
      lookahead_ok_def is_word_char_def ci_literal_def is_ascii_letter_def ascii_lower_def)

lemma category_matches: "finditer_from cat_pattern (pystr ''category'') 0 = []"
  by (simp add: finditer_from.simps cat_pattern_def pystr_def match_at_def lookbehind_ok_def
      lookahead_ok_def is_word_char_def ci_literal_def is_ascii_letter_def ascii_lower_def)

theorem word_term_boundaries_witness:
  "finditer_from cat_pattern (pystr ''category'') 0 = []
   \<and> finditer_from cat_pattern (pystr ''a cat sat'') 0 = [(2, 3)]
   \<and> \<not> is_word_char (pystr ''a cat sat'' ! 1)
   \<and> \<not> is_word_char (pystr ''a cat sat'' ! 5)"
proof -
  have k: "pystr ''cat'' \<in> set (kept_terms (lexicon example_plugin) full_categories)"
    by (simp add: kept_terms_def lexicon_get_def example_plugin_def
      full_categories_def pystr_def is_ascii_term_def)
  have m: "(2, 3) \<in> set (finditer_from cat_pattern (pystr ''a cat sat'') 0)"
    by (simp add: cat_sat_matches)
  have h: "\<not> has_space (pystr ''cat'')" "length (pystr ''cat'') = 3"
    "ci_prefix (pystr ''cat'') (drop 2 (pystr ''a cat sat''))"
    by (simp_all add: has_space_def pystr_def ci_literal_def is_ascii_letter_def ascii_lower_def)
  from word_term_boundaries [OF cat_pattern_built m k h]
  have "\<not> is_word_char (pystr ''a cat sat'' ! 1) \<and> \<not> is_word_char (pystr ''a cat sat'' ! 5)"
    by (simp add: pystr_def)
  with cat_sat_matches category_matches show ?thesis by simp
qed

text \<open>
  C6 as stated fails for alphanumeric characters outside ASCII: \<open>cat\<close> matches at
  the beginning of \<open>cat\<close>, U+00E9, \<open>gorie\<close>, where the character after the
  occurrence is a letter.
\<close>

theorem alphanumeric_counterexample:
  "build_pattern (lexicon example_plugin) full_categories = Some cat_pattern
   \<and> finditer_from cat_pattern (pystr ''cat'' @ [233] @ pystr ''gorie'') 0 = [(0, 3)]
   \<and> (pystr ''cat'' @ [233] @ pystr ''gorie'') ! 3 = 233
   \<and> is_alnum_latin1 233"
proof -
  have "finditer_from cat_pattern (pystr ''cat'' @ [233] @ pystr ''gorie'') 0 = [(0, 3)]"
    by (simp add: finditer_from.simps cat_pattern_def pystr_def match_at_def lookbehind_ok_def
      lookahead_ok_def is_word_char_def ci_literal_def is_ascii_letter_def ascii_lower_def)
  moreover have "(pystr ''cat'' @ [233] @ pystr ''gorie'') ! 3 = 233"
    by (simp add: pystr_def)
  moreover have "is_alnum_latin1 233"
    by (simp add: is_alnum_latin1_def)
  ultimately show ?thesis
    using cat_pattern_built by simp
qed

section \<open>Case-insensitive matching and deduplication\<close>

lemma ci_literal_ascii:
  "\<lbrakk>d < 128; d' < 128; ascii_lower d = ascii_lower d'\<rbrakk> \<Longrightarrow> ci_literal c d = ci_literal c d'"
  by (auto simp: ci_literal_def is_ascii_letter_def ascii_lower_def split: if_splits)

lemma is_word_char_ascii:
  "\<lbrakk>d < 128; d' < 128; ascii_lower d = ascii_lower d'\<rbrakk> \<Longrightarrow> is_word_char d = is_word_char d'"
  by (auto simp: is_word_char_def is_ascii_letter_def ascii_lower_def split: if_splits)

lemma lower_char_ascii:
  "\<lbrakk>d < 128; d' < 128; ascii_lower d = ascii_lower d'\<rbrakk> \<Longrightarrow> lower_char d = lower_char d'"
  by (auto simp: lower_char_def ascii_lower_def split: if_splits)

lemma ci_literal_case: "case_variant d d' \<Longrightarrow> ci_literal c d = ci_literal c d'"
  unfolding case_variant_def using ci_literal_ascii [of d d' c] by blast

lemma is_word_char_case: "case_variant d d' \<Longrightarrow> is_word_char d = is_word_char d'"
  unfolding case_variant_def using is_word_char_ascii [of d d'] by blast

lemma lower_char_case: "case_variant d d' \<Longrightarrow> lower_char d = lower_char d'"
  unfolding case_variant_def using lower_char_ascii [of d d'] by blast

lemma ci_prefix_case: "same_up_to_case s s' \<Longrightarrow> ci_prefix t s = ci_prefix t s'"
proof (induction t arbitrary: s s')
  case Nil
  then show ?case by simp
next
  case (Cons c cs)
  show ?case
  proof (cases s)
    case Nil
    with Cons.prems show ?thesis by (simp add: same_up_to_case_def)
  next
    case sc: (Cons d ds)
    with Cons.prems obtain d' ds' where s': "s' = d' # ds'"
      and v: "case_variant d d'" and r: "same_up_to_case ds ds'"
      by (auto simp: same_up_to_case_def list_all2_Cons1)
    from Cons.IH [OF r] sc s' ci_literal_case [OF v] show ?thesis by simp
  qed
qed

lemma same_drop: "same_up_to_case s s' \<Longrightarrow> same_up_to_case (drop k s) (drop k s')"
  by (simp add: same_up_to_case_def list_all2_dropI)

lemma same_length: "same_up_to_case s s' \<Longrightarrow> length s = length s'"
  by (simp add: same_up_to_case_def list_all2_lengthD)

lemma same_word_char:
  assumes "same_up_to_case s s'" and "i < length s"
  shows "is_word_char (s ! i) = is_word_char (s' ! i)"
proof -
  from assms have "case_variant (s ! i) (s' ! i)"
    by (simp add: same_up_to_case_def list_all2_nthD)
  then show ?thesis by (rule is_word_char_case)
qed

lemma py_lower_case: "same_up_to_case w w' \<Longrightarrow> py_lower w = py_lower w'"
  unfolding same_up_to_case_def py_lower_def
  by (induction w w' rule: list_all2_induct) (simp_all add: lower_char_case)

lemma same_lookbehind: "same_up_to_case s s' \<Longrightarrow> pos < length s \<Longrightarrow>
    lookbehind_ok s pos = lookbehind_ok s' pos"
  by (auto simp: lookbehind_ok_def same_word_char)

lemma same_lookahead: "same_up_to_case s s' \<Longrightarrow> lookahead_ok s e = lookahead_ok s' e"
  using same_length [of s s'] same_word_char [of s s' e]
  by (auto simp: lookahead_ok_def)

lemma same_first_word: "same_up_to_case s s' \<Longrightarrow> first_word ts s pos = first_word ts s' pos"
  by (induction ts) (simp_all add: ci_prefix_case [OF same_drop] same_lookahead)

lemma same_first_phrase:
  "same_up_to_case s s' \<Longrightarrow> first_phrase ts s pos = first_phrase ts s' pos"
  by (induction ts) (simp_all add: ci_prefix_case [OF same_drop])

lemma same_match_at: "same_up_to_case s s' \<Longrightarrow> pos < length s \<Longrightarrow>
    match_at pat s pos = match_at pat s' pos"
proof -
  assume a: "same_up_to_case s s'" and b: "pos < length s"
  have "lookbehind_ok s' pos = lookbehind_ok s pos"
    using same_lookbehind [OF a b] by simp
  moreover have "first_word (word_terms pat) s' pos = first_word (word_terms pat) s pos"
    using same_first_word [OF a] by simp
  moreover have "first_phrase (phrase_terms pat) s' pos = first_phrase (phrase_terms pat) s pos"
    using same_first_phrase [OF a] by simp
  ultimately show ?thesis by (simp only: match_at_def)
qed

lemma same_finditer:
  "same_up_to_case s s' \<Longrightarrow> finditer_from pat s k = finditer_from pat s' k"
proof (induction pat s k rule: finditer_from.induct)
  case (1 pat s k)
  note l = same_length [OF "1.prems"]
  show ?case
  proof (cases "length s \<le> k")
    case True
    with l show ?thesis
      by (simp add: finditer_from.simps [of pat s k] finditer_from.simps [of pat s' k])
  next
    case False
    then have m: "match_at pat s' k = match_at pat s k"
      using same_match_at [OF "1.prems", of k pat] by simp
    show ?thesis
    proof (cases "match_at pat s k")
      case None
      with False l m "1.IH"(1) [OF False None "1.prems"] show ?thesis
        by (simp add: finditer_from.simps [of pat s k] finditer_from.simps [of pat s' k])
    next
      case (Some n)
      with False l m "1.IH"(2) [OF False Some "1.prems"] show ?thesis
        by (simp add: finditer_from.simps [of pat s k] finditer_from.simps [of pat s' k])
    qed
  qed
qed

text \<open>
  C7 (as amended).  For every tier with a compiled pattern and every text, the reported
  list is the list of matches deduplicated by the key \<open>w.lower()\<close> in first-occurrence
  order: its keys are pairwise distinct, every key of a match is the key of one entry,
  and each entry is the first match with its key, in its casing.  Matching is
  case-insensitive: two texts that differ only in the case of ASCII letters, whatever
  other characters they hold, have the same matches at the same positions, and two
  matched strings that differ only in the case of ASCII letters have the same key.
\<close>

theorem matches_deduplicated:
  assumes "policy \<noteq> pystr ''none''"
    and "policy_patterns (lexicon st) (py_lower policy) = Some (Some pat)"
  shows "find_with_policy st policy s = dedup_spec (matched_strings pat s)
       \<and> distinct (map py_lower (find_with_policy st policy s))
       \<and> py_lower ` set (find_with_policy st policy s) = py_lower ` set (matched_strings pat s)
       \<and> (\<forall>s'. same_up_to_case s s' \<longrightarrow> finditer_from pat s 0 = finditer_from pat s' 0)
       \<and> (\<forall>w w'. same_up_to_case w w' \<longrightarrow> py_lower w = py_lower w')"
proof -
  have "find_with_policy st policy s = dedup_spec (matched_strings pat s)"
    using assms by (simp add: find_with_policy_def collect_loop_dedup)
  then show ?thesis
    by (simp add: distinct_dedup_spec keys_dedup_spec same_finditer py_lower_case)
qed

lemma full_pattern_example:
  "policy_patterns (lexicon example_plugin) (py_lower (pystr ''full'')) = Some (Some cat_pattern)"
proof -
  have "py_lower (pystr ''full'') = pystr ''full''"
    by (simp add: py_lower_def lower_char_def pystr_def)
  moreover have "policies (pystr ''full'') = Some full_categories"
    by (simp add: policies_def pystr_def)
  ultimately show ?thesis
    by (simp add: policy_patterns_def cat_pattern_built)
qed

lemma foo_matches:
  "matched_strings cat_pattern (pystr ''Foo and foo'') = [pystr ''Foo'', pystr ''foo'']"
  by (simp add: matched_strings_def finditer_from.simps cat_pattern_def pystr_def match_at_def
      lookbehind_ok_def lookahead_ok_def is_word_char_def ci_literal_def is_ascii_letter_def
      ascii_lower_def)

theorem matches_deduplicated_witness:
  "find_with_policy example_plugin (pystr ''full'') (pystr ''Foo and foo'') = [pystr ''Foo'']"
proof -
  have n: "pystr ''full'' \<noteq> pystr ''none''"
    by (simp add: pystr_def)
  have "find_with_policy example_plugin (pystr ''full'') (pystr ''Foo and foo'')
          = dedup_spec (matched_strings cat_pattern (pystr ''Foo and foo''))"
    using matches_deduplicated [OF n full_pattern_example, of "pystr ''Foo and foo''"]
    by (rule conjunct1)
  also have "\<dots> = [pystr ''Foo'']"
    by (simp add: foo_matches) (simp add: pystr_def py_lower_def lower_char_def)
  finally show ?thesis .
qed

text \<open>
  C7 as stated fails: the key is \<open>str.lower()\<close>, not a case fold.  With the term
  \<open>sun\<close>, the text \<open>sun\<close>, space, U+017F \<open>un\<close> has two occurrences of the term
  that are equal after case folding, and both are reported.
\<close>

theorem case_fold_counterexample:
  "find_with_policy sun_plugin (pystr ''full'') (pystr ''sun '' @ [383, 117, 110])
     = [pystr ''sun'', [383, 117, 110]]
   \<and> py_casefold (pystr ''sun'') = py_casefold [383, 117, 110]"
proof -
  have b: "build_pattern (lexicon sun_plugin) full_categories
          = Some \<lparr>word_terms = [pystr ''sun''], phrase_terms = []\<rparr>"
    by (simp add: build_pattern_def Let_def kept_terms_def lexicon_get_def sun_plugin_def
      example_plugin_def full_categories_def pystr_def is_ascii_term_def has_space_def)
  have p: "policies (pystr ''full'') = Some full_categories"
    by (simp add: policies_def pystr_def)
  have l: "py_lower (pystr ''full'') = pystr ''full''"
    by (simp add: py_lower_def lower_char_def pystr_def)
  have n: "pystr ''full'' \<noteq> pystr ''none''"
    by (simp add: pystr_def)
  have m: "matched_strings \<lparr>word_terms = [pystr ''sun''], phrase_terms = []\<rparr>
             (pystr ''sun '' @ [383, 117, 110]) = [pystr ''sun'', [383, 117, 110]]"
    by (simp add: matched_strings_def finditer_from.simps pystr_def match_at_def
      lookbehind_ok_def lookahead_ok_def is_word_char_def ci_literal_def is_ascii_letter_def
      ascii_lower_def)
  have d: "collect_loop [pystr ''sun'', [383, 117, 110]] [] [] = [pystr ''sun'', [383, 117, 110]]"
    by (simp add: pystr_def py_lower_def lower_char_def)
  have f: "py_casefold (pystr ''sun'') = py_casefold [383, 117, 110]"
    by (simp add: py_casefold_def casefold_char_def pystr_def)
  from b p l n m d have
    "find_with_policy sun_plugin (pystr ''full'') (pystr ''sun '' @ [383, 117, 110])
       = [pystr ''sun'', [383, 117, 110]]"
    by (simp add: find_with_policy_def policy_patterns_def)
  with f show ?thesis by simp
qed

section \<open>Tiers\<close>

lemma policies_cases:
  "policies t = Some c \<Longrightarrow>
     (t = pystr ''none'' \<and> c = []) \<or> (t = pystr ''lite'' \<and> c = lite_categories)
     \<or> (t = pystr ''full'' \<and> c = full_categories)"
  by (auto simp: policies_def split: if_splits)

lemma py_lower_tiers:
  "py_lower (pystr ''none'') = pystr ''none''"
  "py_lower (pystr ''lite'') = pystr ''lite''"
  "py_lower (pystr ''full'') = pystr ''full''"
  by (simp_all add: py_lower_def lower_char_def pystr_def)

lemma policies_lower: "policies t = Some c \<Longrightarrow> py_lower t = t"
  using policies_cases [of t c] py_lower_tiers by auto

lemma matched_strings_Nil: "(matched_strings pat s = []) = (finditer_from pat s 0 = [])"
  by (simp add: matched_strings_def)

lemma find_with_policy_nonempty:
  "(find_with_policy st policy s \<noteq> []) =
     (policy \<noteq> pystr ''none'' \<and>
      (\<exists>pat. policy_patterns (lexicon st) (py_lower policy) = Some (Some pat)
             \<and> (\<exists>pos < length s. match_at pat s pos \<noteq> None)))"
  by (auto simp: find_with_policy_def collect_loop_dedup dedup_spec_nonempty
      matched_strings_Nil finditer_nonempty_iff split: option.splits)

text \<open>
  C5.  For two tiers whose category sets are ordered by inclusion (in particular
  \<open>lite\<close> and \<open>full\<close>) and for every text: if the matcher of the smaller tier reports
  at least one match, so does the matcher of the larger tier.
\<close>

theorem tier_monotone:
  assumes "policies t1 = Some c1" and "policies t2 = Some c2"
    and "set c1 \<subseteq> set c2"
    and "find_with_policy st t1 s \<noteq> []"
  shows "find_with_policy st t2 s \<noteq> []"
proof -
  from assms(4) obtain p1 pos where
    n1: "t1 \<noteq> pystr ''none''" and
    pp1: "policy_patterns (lexicon st) (py_lower t1) = Some (Some p1)" and
    pos: "pos < length s" and m1: "match_at p1 s pos \<noteq> None"
    unfolding find_with_policy_nonempty by blast
  from pp1 assms(1) have b1: "build_pattern (lexicon st) c1 = Some p1"
    by (simp add: policy_patterns_def policies_lower [OF assms(1)])
  then have k1: "kept_terms (lexicon st) c1 \<noteq> []"
    using build_pattern_None [of "lexicon st" c1] by simp
  with kept_terms_mono [OF assms(3), of "lexicon st"]
  have k2: "kept_terms (lexicon st) c2 \<noteq> []" by auto
  then obtain p2 where b2: "build_pattern (lexicon st) c2 = Some p2"
    using build_pattern_None [of "lexicon st" c2] by (cases "build_pattern (lexicon st) c2") auto
  from k2 have "c2 \<noteq> []" by (auto simp: kept_terms_def)
  with policies_cases [OF assms(2)] have n2: "t2 \<noteq> pystr ''none''"
    by (auto simp: pystr_def)
  from b2 assms(2) have pp2: "policy_patterns (lexicon st) (py_lower t2) = Some (Some p2)"
    by (simp add: policy_patterns_def policies_lower [OF assms(2)])
  from build_pattern_Some [OF b1] build_pattern_Some [OF b2]
    kept_terms_mono [OF assms(3), of "lexicon st"]
  have "set (word_terms p1) \<subseteq> set (word_terms p2)"
    and "set (phrase_terms p1) \<subseteq> set (phrase_terms p2)" by auto
  then have "match_at p2 s pos \<noteq> None" using m1 by (rule match_at_mono)
  with n2 pp2 pos show ?thesis
    unfolding find_with_policy_nonempty by blast
qed

lemma lite_pattern_example:
  "policy_patterns (lexicon example_plugin) (py_lower (pystr ''lite'')) = Some (Some cat_pattern)"
proof -
  have "policies (pystr ''lite'') = Some lite_categories"
    by (simp add: policies_def pystr_def)
  moreover have "build_pattern (lexicon example_plugin) lite_categories = Some cat_pattern"
    by (simp add: build_pattern_def Let_def kept_terms_def lexicon_get_def example_plugin_def
      lite_categories_def cat_pattern_def pystr_def is_ascii_term_def has_space_def)
  ultimately show ?thesis
    by (simp add: policy_patterns_def py_lower_tiers)
qed

theorem tier_monotone_witness:
  "find_with_policy example_plugin (pystr ''lite'') (pystr ''a cat sat'') = [pystr ''cat'']
   \<and> find_with_policy example_plugin (pystr ''full'') (pystr ''a cat sat'') \<noteq> []"
proof -
  have l: "policies (pystr ''lite'') = Some lite_categories"
    by (simp add: policies_def pystr_def)
  have f: "policies (pystr ''full'') = Some full_categories"
    by (simp add: policies_def pystr_def)
  have sub: "set lite_categories \<subseteq> set full_categories"
    by (simp add: lite_categories_def full_categories_def)
  have n: "pystr ''lite'' \<noteq> pystr ''none''"
    by (simp add: pystr_def)
  have r: "find_with_policy example_plugin (pystr ''lite'') (pystr ''a cat sat'') = [pystr ''cat'']"
    using n lite_pattern_example
    by (simp add: find_with_policy_def matched_strings_def cat_sat_matches)
       (simp add: pystr_def)
  then have "find_with_policy example_plugin (pystr ''lite'') (pystr ''a cat sat'') \<noteq> []"
    by simp
  from tier_monotone [OF l f sub this] r show ?thesis by simp
qed

lemma occurs_nonempty:
  assumes "t \<noteq> []" and "ci_prefix t (drop pos s)"
  shows "pos < length s"
proof -
  from ci_prefix_nonempty [OF assms(2,1)] show ?thesis by simp
qed

lemma kept_terms_set:
  "set (kept_terms lx cats) =
     {t. \<exists>c\<in>set cats. t \<in> set (lexicon_get lx c) \<and> t \<noteq> [] \<and> is_ascii_term t}"
  by (auto simp: kept_terms_def)

lemma kept_terms_cong:
  "(\<And>c. c \<in> set cats \<Longrightarrow> lx' c = lx c) \<Longrightarrow> kept_terms lx' cats = kept_terms lx cats"
  by (simp add: kept_terms_def lexicon_get_def cong: map_cong)

lemma build_pattern_cong:
  assumes "\<And>c. c \<in> set cats \<Longrightarrow> lx' c = lx c"
  shows "build_pattern lx' cats = build_pattern lx cats"
proof -
  from assms have "kept_terms lx' cats = kept_terms lx cats"
    by (rule kept_terms_cong)
  then show ?thesis by (simp only: build_pattern_def)
qed

lemma lite_subset_full: "set lite_categories \<subseteq> set full_categories"
  by (simp add: lite_categories_def full_categories_def)

lemma policies_subset: "policies policy = Some cats \<Longrightarrow> set cats \<subseteq> set full_categories"
  using policies_cases [of policy cats] lite_subset_full by auto

lemma policy_patterns_cong:
  assumes "\<And>c. c \<in> set full_categories \<Longrightarrow> lx' c = lx c"
  shows "policy_patterns lx' = policy_patterns lx"
proof
  fix policy
  show "policy_patterns lx' policy = policy_patterns lx policy"
  proof (cases "policies policy")
    case None
    then show ?thesis by (simp add: policy_patterns_def)
  next
    case (Some cats)
    from policies_subset [OF Some] assms
    have "build_pattern lx' cats = build_pattern lx cats"
      by (intro build_pattern_cong) auto
    with Some show ?thesis by (simp add: policy_patterns_def)
  qed
qed

lemma full_tier_member:
  assumes "cat \<in> set full_categories"
    and "lexicon st cat = Some ts"
    and "t \<in> set ts" and "t \<noteq> []" and "is_ascii_term t"
  shows "\<exists>pat. policy_patterns (lexicon st) (pystr ''full'') = Some (Some pat)
          \<and> (if has_space t then t \<in> set (phrase_terms pat) else t \<in> set (word_terms pat))
          \<and> (\<forall>s pos. (if has_space t then phrase_occurs t s pos else word_occurs t s pos)
                \<longrightarrow> find_sensitive_words st s None \<noteq> [])"
proof -
  have k: "t \<in> set (kept_terms (lexicon st) full_categories)"
    using assms by (rule kept_terms_member)
  then have "build_pattern (lexicon st) full_categories \<noteq> None"
    using build_pattern_None [of "lexicon st" full_categories] by auto
  then obtain pat where b: "build_pattern (lexicon st) full_categories = Some pat" by auto
  have f: "policies (pystr ''full'') = Some full_categories"
    by (simp add: policies_def pystr_def)
  from b f have pp: "policy_patterns (lexicon st) (pystr ''full'') = Some (Some pat)"
    by (simp add: policy_patterns_def)
  from k build_pattern_Some [OF b]
  have mem: "if has_space t then t \<in> set (phrase_terms pat) else t \<in> set (word_terms pat)"
    by simp
  have n: "pystr ''full'' \<noteq> pystr ''none''" by (simp add: pystr_def)
  have occ: "find_sensitive_words st s None \<noteq> []"
    if o: "if has_space t then phrase_occurs t s pos else word_occurs t s pos" for s pos
  proof -
    from o have cp: "ci_prefix t (drop pos s)"
      by (auto simp: phrase_occurs_def word_occurs_def split: if_splits)
    from occurs_nonempty [OF assms(4) cp] have pos: "pos < length s" .
    then have ne: "s \<noteq> []" by auto
    from o mem have "match_at pat s pos \<noteq> None"
      unfolding match_at_None by (auto split: if_splits)
    with pos pp n have "find_with_policy st (pystr ''full'') s \<noteq> []"
      unfolding find_with_policy_nonempty by (auto simp: py_lower_tiers)
    with ne show ?thesis by (simp add: find_sensitive_words_def)
  qed
  from pp mem occ show ?thesis by blast
qed

lemma full_tier_exact:
  assumes "policy_patterns lx (pystr ''full'') = Some (Some pat)"
  shows "set (word_terms pat) \<union> set (phrase_terms pat) =
      {t. \<exists>c\<in>set full_categories. t \<in> set (lexicon_get lx c) \<and> t \<noteq> [] \<and> is_ascii_term t}"
proof -
  have "policies (pystr ''full'') = Some full_categories"
    by (simp add: policies_def pystr_def)
  with assms have b: "build_pattern lx full_categories = Some pat"
    by (simp add: policy_patterns_def)
  from build_pattern_Some [OF b]
  have "set (word_terms pat) \<union> set (phrase_terms pat) = set (kept_terms lx full_categories)"
    by auto
  then show ?thesis by (simp only: kept_terms_set)
qed

text \<open>
  C1 (as amended).  The \<open>full\<close> tier activates the ten categories listed in
  \<open>self.policies\<close>: for every lexicon, every non-empty ASCII term of one of these ten
  categories is part of the compiled matcher of \<open>full\<close>, as a phrase term when it
  contains a space and as a word term otherwise, and every text in which the term occurs
  (for a word term: with no word character next to the occurrence) is matched under the
  \<open>full\<close> tier.  The terms of that matcher are exactly the non-empty ASCII terms of
  the ten categories, and a category outside the ten is read by no tier: two lexicons
  that agree on the ten categories give the same matcher for every tier name.
\<close>

theorem full_tier_terms:
  "(\<forall>cat ts t. cat \<in> set full_categories \<and> lexicon st cat = Some ts \<and> t \<in> set ts
        \<and> t \<noteq> [] \<and> is_ascii_term t \<longrightarrow>
      (\<exists>pat. policy_patterns (lexicon st) (pystr ''full'') = Some (Some pat)
          \<and> (if has_space t then t \<in> set (phrase_terms pat) else t \<in> set (word_terms pat))
          \<and> (\<forall>s pos. (if has_space t then phrase_occurs t s pos else word_occurs t s pos)
                \<longrightarrow> find_sensitive_words st s None \<noteq> [])))
   \<and> (\<forall>pat. policy_patterns (lexicon st) (pystr ''full'') = Some (Some pat) \<longrightarrow>
        set (word_terms pat) \<union> set (phrase_terms pat) =
          {t. \<exists>c\<in>set full_categories. t \<in> set (lexicon_get (lexicon st) c)
                \<and> t \<noteq> [] \<and> is_ascii_term t})
   \<and> (\<forall>lx'. (\<forall>c\<in>set full_categories. lx' c = lexicon st c)
        \<longrightarrow> policy_patterns lx' = policy_patterns (lexicon st))"
proof (intro conjI allI impI)
  fix cat ts t
  assume "cat \<in> set full_categories \<and> lexicon st cat = Some ts \<and> t \<in> set ts
        \<and> t \<noteq> [] \<and> is_ascii_term t"
  then have "cat \<in> set full_categories" "lexicon st cat = Some ts" "t \<in> set ts"
    "t \<noteq> []" "is_ascii_term t"
    by simp_all
  then show "\<exists>pat. policy_patterns (lexicon st) (pystr ''full'') = Some (Some pat)
          \<and> (if has_space t then t \<in> set (phrase_terms pat) else t \<in> set (word_terms pat))
          \<and> (\<forall>s pos. (if has_space t then phrase_occurs t s pos else word_occurs t s pos)
                \<longrightarrow> find_sensitive_words st s None \<noteq> [])"
    by (rule full_tier_member)
next
  fix pat
  assume "policy_patterns (lexicon st) (pystr ''full'') = Some (Some pat)"
  then show "set (word_terms pat) \<union> set (phrase_terms pat) =
          {t. \<exists>c\<in>set full_categories. t \<in> set (lexicon_get (lexicon st) c)
                \<and> t \<noteq> [] \<and> is_ascii_term t}"
    by (rule full_tier_exact)
next
  fix lx'
  assume "\<forall>c\<in>set full_categories. lx' c = lexicon st c"
  then show "policy_patterns lx' = policy_patterns (lexicon st)"
    by (intro policy_patterns_cong) simp
qed

theorem full_tier_terms_witness:
  "find_sensitive_words example_plugin (pystr ''a cat sat'') None \<noteq> []"
proof -
  have h: "pystr ''legacy_lite'' \<in> set full_categories
      \<and> lexicon example_plugin (pystr ''legacy_lite'') = Some [pystr ''cat'', pystr ''foo'']
      \<and> pystr ''cat'' \<in> set [pystr ''cat'', pystr ''foo''] \<and> pystr ''cat'' \<noteq> []
      \<and> is_ascii_term (pystr ''cat'')"
    by (simp add: full_categories_def example_plugin_def pystr_def is_ascii_term_def)
  have ns: "\<not> has_space (pystr ''cat'')"
    by (simp add: has_space_def pystr_def)
  have o: "word_occurs (pystr ''cat'') (pystr ''a cat sat'') 2"
    by (simp add: word_occurs_def lookbehind_ok_def lookahead_ok_def is_word_char_def
        pystr_def ci_literal_def is_ascii_letter_def ascii_lower_def)
  from full_tier_terms [of example_plugin]
  have "\<forall>cat ts t. cat \<in> set full_categories \<and> lexicon example_plugin cat = Some ts
        \<and> t \<in> set ts \<and> t \<noteq> [] \<and> is_ascii_term t \<longrightarrow>
      (\<exists>pat. policy_patterns (lexicon example_plugin) (pystr ''full'') = Some (Some pat)
          \<and> (if has_space t then t \<in> set (phrase_terms pat) else t \<in> set (word_terms pat))
          \<and> (\<forall>s pos. (if has_space t then phrase_occurs t s pos else word_occurs t s pos)
                \<longrightarrow> find_sensitive_words example_plugin s None \<noteq> []))"
    by (rule conjunct1)
  with h have "\<exists>pat. policy_patterns (lexicon example_plugin) (pystr ''full'') = Some (Some pat)
          \<and> (if has_space (pystr ''cat'') then pystr ''cat'' \<in> set (phrase_terms pat)
              else pystr ''cat'' \<in> set (word_terms pat))
          \<and> (\<forall>s pos. (if has_space (pystr ''cat'') then phrase_occurs (pystr ''cat'') s pos
                        else word_occurs (pystr ''cat'') s pos)
                \<longrightarrow> find_sensitive_words example_plugin s None \<noteq> [])"
    by blast
  then have "(if has_space (pystr ''cat'')
         then phrase_occurs (pystr ''cat'') (pystr ''a cat sat'') 2
         else word_occurs (pystr ''cat'') (pystr ''a cat sat'') 2)
       \<longrightarrow> find_sensitive_words example_plugin (pystr ''a cat sat'') None \<noteq> []"
    by (elim exE conjE allE) assumption
  with ns o show ?thesis by simp
qed

text \<open>
  C1 as stated fails for a lexicon with a category outside the ten: its terms are in no
  matcher, and a text that consists of such a term is not matched under \<open>full\<close>.
\<close>

theorem full_tier_union_counterexample:
  "lexicon extra_plugin (pystr ''extra'') = Some [pystr ''badword'']
   \<and> is_ascii_term (pystr ''badword'')
   \<and> word_occurs (pystr ''badword'') (pystr ''badword'') 0
   \<and> find_sensitive_words extra_plugin (pystr ''badword'') None = []"
proof -
  have "kept_terms (lexicon extra_plugin) full_categories = []"
    by (simp add: kept_terms_def lexicon_get_def extra_plugin_def example_plugin_def
        full_categories_def pystr_def)
  then have "build_pattern (lexicon extra_plugin) full_categories = None"
    by (simp add: build_pattern_None)
  moreover have "policies (pystr ''full'') = Some full_categories"
    by (simp add: policies_def pystr_def)
  ultimately have "find_sensitive_words extra_plugin (pystr ''badword'') None = []"
    by (simp add: find_sensitive_words_def find_with_policy_def policy_patterns_def
        py_lower_tiers)
  moreover have "word_occurs (pystr ''badword'') (pystr ''badword'') 0"
    by (simp add: word_occurs_def lookbehind_ok_def lookahead_ok_def
        pystr_def ci_literal_def is_ascii_letter_def ascii_lower_def)
  moreover have "lexicon extra_plugin (pystr ''extra'') = Some [pystr ''badword'']"
    by (simp add: extra_plugin_def)
  moreover have "is_ascii_term (pystr ''badword'')"
    by (simp add: is_ascii_term_def pystr_def)
  ultimately show ?thesis by simp
qed

lemma lower_char_idem: "d \<in> set (lower_char c) \<Longrightarrow> lower_char d = [d]"
  by (auto simp: lower_char_def split: if_splits)

lemma concat_singletons:
  "(\<And>d. d \<in> set xs \<Longrightarrow> lower_char d = [d]) \<Longrightarrow> concat (map lower_char xs) = xs"
  by (induction xs) simp_all

lemma py_lower_idem: "py_lower (py_lower s) = py_lower s"
proof -
  have "lower_char d = [d]" if "d \<in> set (py_lower s)" for d
  proof -
    from that obtain c where "d \<in> set (lower_char c)"
      by (auto simp: py_lower_def)
    then show ?thesis by (rule lower_char_idem)
  qed
  then have "concat (map lower_char (py_lower s)) = py_lower s"
    by (rule concat_singletons)
  then show ?thesis by (simp only: py_lower_def [of "py_lower s"])
qed

lemma policies_None:
  "\<lbrakk>t \<noteq> pystr ''none''; t \<noteq> pystr ''lite''; t \<noteq> pystr ''full''\<rbrakk> \<Longrightarrow> policies t = None"
  by (simp add: policies_def)

lemma loaded_tier_lowered:
  "\<exists>raw. get_policy_for_event (load_policies cg cp cgs st0) ev = py_lower raw"
  by (auto simp: get_policy_for_event_def load_policies_def split: option.splits)

text \<open>
  C10.  When the tier names are loaded from the configuration and the tier resolved for
  an event is a string other than \<open>none\<close>, \<open>lite\<close> and \<open>full\<close>, then for every text
  the sensitive-word search returns the empty list and the content-policy check passes.
\<close>

theorem unknown_tier_passes:
  assumes "st = load_policies conf_group conf_private conf_groups st0"
    and "tier = get_policy_for_event st ev"
    and "tier \<noteq> pystr ''none''" and "tier \<noteq> pystr ''lite''" and "tier \<noteq> pystr ''full''"
  shows "find_sensitive_words st s (Some ev) = [] \<and> check_sensitive st s ev = (True, [])"
proof -
  from assms(1,2) loaded_tier_lowered obtain raw where "tier = py_lower raw" by blast
  then have "py_lower tier = tier" by (simp add: py_lower_idem)
  moreover have "policies tier = None" using assms(3-5) by (rule policies_None)
  ultimately have "find_with_policy st tier s = []"
    by (simp add: find_with_policy_def policy_patterns_def)
  then have "find_sensitive_words st s (Some ev) = []"
    using assms(2) by (simp add: find_sensitive_words_def)
  then show ?thesis by (simp add: check_sensitive_def)
qed

theorem unknown_tier_passes_witness:
  "get_policy_for_event
     (load_policies (pystr ''lite'') (pystr ''Ful'') Map.empty example_plugin) private_event
     = pystr ''ful''
   \<and> check_sensitive
     (load_policies (pystr ''lite'') (pystr ''Ful'') Map.empty example_plugin)
     (pystr ''a cat sat'') private_event = (True, [])"
proof -
  have g: "get_policy_for_event
     (load_policies (pystr ''lite'') (pystr ''Ful'') Map.empty example_plugin) private_event
     = pystr ''ful''"
    by (simp add: get_policy_for_event_def load_policies_def private_event_def
        py_lower_def lower_char_def pystr_def)
  have n: "pystr ''ful'' \<noteq> pystr ''none''" "pystr ''ful'' \<noteq> pystr ''lite''"
    "pystr ''ful'' \<noteq> pystr ''full''"
    by (simp_all add: pystr_def)
  from unknown_tier_passes [OF refl g [symmetric] n] g show ?thesis by simp
qed

section \<open>Properties of the rejection messages\<close>

text \<open>
  C2 (as amended).  Whenever the content-policy check fails, the matched terms are not
  empty and the message of each call path lists a prefix of them: the first five on the
  path of \<open>_handle_paint_logic\<close>, followed, when more than five terms matched, by the
  total number of matched terms; the first five and no count on the path of
  \<open>comfyui_txt2img\<close>; the first three and no count on the batch path of
  \<open>_auto_paint_from_llm\<close>.
\<close>

theorem rejection_messages:
  assumes "check_sensitive st prompt ev = (False, sensitive)"
  shows "sensitive = find_sensitive_words st prompt (Some ev) \<and> sensitive \<noteq> []
       \<and> paint_policy_step st prompt ev =
           Some (msg_head @ join term_sep (take 5 sensitive)
                 @ (if 5 < length sensitive
                    then [31561, 32] @ str_of_nat (length sensitive) @ [32, 20010] else [])
                 @ [65292, 26080, 27861, 29983, 25104, 22270, 29255])
       \<and> txt2img_policy_step st prompt ev =
           Some (msg_head @ join term_sep (take 5 sensitive)
                 @ [65292, 26080, 27861, 29983, 25104])
       \<and> batch_policy_step st text_content img_idx prompt ev =
           Some (text_content @ [10, 128683, 32, 91, 22270, 29255] @ str_of_nat img_idx
                 @ [93, 32, 26816, 27979, 21040, 25935, 24863, 35789, 65306]
                 @ join term_sep (take 3 sensitive))"
proof -
  from assms have s: "sensitive = find_sensitive_words st prompt (Some ev)"
    and n: "sensitive \<noteq> []"
    by (auto simp: check_sensitive_def Let_def split: if_splits)
  from assms show ?thesis
    by (simp add: s [symmetric] n paint_policy_step_def txt2img_policy_step_def
        batch_policy_step_def paint_rejection_def txt2img_rejection_def batch_rejection_def
        Let_def msg_head_def)
qed

lemma six_pattern:
  "policy_patterns (lexicon six_plugin) (py_lower (pystr ''full''))
     = Some (Some \<lparr>word_terms = six_terms, phrase_terms = []\<rparr>)"
proof -
  have "build_pattern (lexicon six_plugin) full_categories
          = Some \<lparr>word_terms = six_terms, phrase_terms = []\<rparr>"
    by (simp add: build_pattern_def Let_def kept_terms_def lexicon_get_def six_plugin_def
      example_plugin_def full_categories_def six_terms_def pystr_def is_ascii_term_def
      has_space_def)
  moreover have "policies (pystr ''full'') = Some full_categories"
    by (simp add: policies_def pystr_def)
  ultimately show ?thesis
    by (simp add: policy_patterns_def py_lower_tiers)
qed

lemma six_matches:
  "matched_strings \<lparr>word_terms = six_terms, phrase_terms = []\<rparr> six_prompt = six_terms"
  by (simp add: matched_strings_def finditer_from.simps six_terms_def six_prompt_def pystr_def
      match_at_def lookbehind_ok_def lookahead_ok_def is_word_char_def ci_literal_def
      is_ascii_letter_def ascii_lower_def)

lemma six_found: "find_sensitive_words six_plugin six_prompt (Some private_event) = six_terms"
proof -
  have "get_policy_for_event six_plugin private_event = pystr ''full''"
    by (simp add: get_policy_for_event_def six_plugin_def example_plugin_def private_event_def)
  moreover have "pystr ''full'' \<noteq> pystr ''none''" "six_prompt \<noteq> []"
    by (simp_all add: pystr_def six_prompt_def)
  moreover have "dedup_spec six_terms = six_terms"
    by (simp add: six_terms_def pystr_def py_lower_def lower_char_def)
  ultimately show ?thesis
    using six_pattern
    by (simp add: find_sensitive_words_def find_with_policy_def six_matches collect_loop_dedup)
qed

lemma six_rejected: "check_sensitive six_plugin six_prompt private_event = (False, six_terms)"
proof -
  have "sender_id private_event \<notin> admin_user_ids six_plugin"
    by (simp add: private_event_def six_plugin_def example_plugin_def pystr_def)
  moreover have "six_terms \<noteq> []" by (simp add: six_terms_def)
  ultimately show ?thesis
    by (simp add: check_sensitive_def six_found)
qed

theorem rejection_messages_witness:
  "paint_policy_step six_plugin six_prompt private_event =
     Some (msg_head @ [97, 12289, 98, 12289, 99, 12289, 100, 12289, 101]
           @ [31561, 32, 54, 32, 20010] @ [65292, 26080, 27861, 29983, 25104, 22270, 29255])"
proof -
  from rejection_messages [OF six_rejected, of "[]" 1]
  have "paint_policy_step six_plugin six_prompt private_event =
           Some (msg_head @ join term_sep (take 5 six_terms)
                 @ (if 5 < length six_terms
                    then [31561, 32] @ str_of_nat (length six_terms) @ [32, 20010] else [])
                 @ [65292, 26080, 27861, 29983, 25104, 22270, 29255])"
    by simp
  then show ?thesis
    by (simp add: six_terms_def term_sep_def pystr_def str_of_nat.simps)
qed

text \<open>
  C2 as stated fails: with six matched terms one term remains beyond the first five, and
  the number 1 is in no message.  The message of \<open>comfyui_txt2img\<close> is the one for
  the first five terms alone, the message of \<open>_handle_paint_logic\<close> carries the total
  6, and the batch message lists three terms.
\<close>

theorem remainder_count_counterexample:
  "check_sensitive six_plugin six_prompt private_event = (False, six_terms)
   \<and> length six_terms - 5 = 1
   \<and> txt2img_policy_step six_plugin six_prompt private_event
       = Some (txt2img_rejection (take 5 six_terms))
   \<and> find_sub (str_of_nat 1) (txt2img_rejection six_terms) = None
   \<and> find_sub (str_of_nat 1) (paint_rejection six_terms) = None
   \<and> find_sub (str_of_nat 6) (paint_rejection six_terms) = Some 20
   \<and> batch_policy_step six_plugin [] 1 six_prompt private_event
       = Some (batch_rejection [] 1 (take 3 six_terms))"
proof -
  have a: "txt2img_policy_step six_plugin six_prompt private_event
       = Some (txt2img_rejection (take 5 six_terms))"
    by (simp add: txt2img_policy_step_def six_rejected txt2img_rejection_def)
  have b: "batch_policy_step six_plugin [] 1 six_prompt private_event
       = Some (batch_rejection [] 1 (take 3 six_terms))"
    by (simp add: batch_policy_step_def six_rejected batch_rejection_def)
  have c: "find_sub (str_of_nat 1) (txt2img_rejection six_terms) = None"
    by (simp add: txt2img_rejection_def six_terms_def term_sep_def msg_head_def pystr_def
        str_of_nat.simps)
  have d: "find_sub (str_of_nat 1) (paint_rejection six_terms) = None"
    by (simp add: paint_rejection_def six_terms_def term_sep_def msg_head_def pystr_def
        str_of_nat.simps)
  have e: "find_sub (str_of_nat 6) (paint_rejection six_terms) = Some 20"
    by (simp add: paint_rejection_def six_terms_def term_sep_def msg_head_def pystr_def
        str_of_nat.simps)
  have f: "length six_terms - 5 = 1" by (simp add: six_terms_def)
  from six_rejected a b c d e f show ?thesis by simp
qed

end
